theory Spec2Isabelle
  imports Main
begin

section \<open>The useWebSocket hook of the EdgeTune dashboard\<close>

text \<open>
  The development embeds \<^verbatim>\<open>frontend/src/hooks/useWebSocket.ts\<close>: the React state
  of the hook, its refs, the handlers that \<^verbatim>\<open>connect\<close> installs on a socket, the
  effect that mounts and unmounts the hook, \<^verbatim>\<open>subscribeToFrames\<close> and
  \<^verbatim>\<open>resetState\<close>. The browser (sockets, timers, the clock) is part of the state, so
  that what a handler schedules can be read off the state afterwards.
\<close>

subsection \<open>Values carried by frames\<close>

text \<open>
  What \<^verbatim>\<open>JSON.parse\<close> returns, and \<^verbatim>\<open>undefined\<close>, which reading a missing property
  gives. An object lists its properties, each name once. The hook never computes with
  the numbers of a payload.
\<close>

datatype jsval =
    JUndefined
  | JNull
  | JBool bool
  | JNum int
  | JStr string
  | JArr "jsval list"
  | JObj "(string \<times> jsval) list"

text \<open>
  An inbound frame is represented by the outcome of \<^verbatim>\<open>JSON.parse(event.data)\<close>:
  the call throws a SyntaxError, or it returns a value.
\<close>

datatype frame = Unparsable | Parsed jsval

datatype js_error = SyntaxError | TypeError | CallbackError

text \<open>How a piece of code ends: it returns, it throws, or it never returns.\<close>

datatype outcome = Returns | Throws js_error | Never_returns

text \<open>
  Reading a property \<^verbatim>\<open>v.k\<close>, for the names the hook reads (type, data, frame, status,
  message, extra): a TypeError on null and undefined, the stored value on an object that
  has the property, \<^verbatim>\<open>undefined\<close> everywhere else.
\<close>

fun get_prop :: "jsval \<Rightarrow> string \<Rightarrow> js_error + jsval" where
  "get_prop JUndefined k = Inl TypeError"
| "get_prop JNull k = Inl TypeError"
| "get_prop (JObj kvs) k = Inr (case map_of kvs k of None \<Rightarrow> JUndefined | Some v \<Rightarrow> v)"
| "get_prop v k = Inr JUndefined"

subsection \<open>Constants\<close>

definition MAX_HISTORY :: nat where "MAX_HISTORY = 120"
definition MAX_DECISIONS :: nat where "MAX_DECISIONS = 50"
definition MAX_EXPLANATIONS :: nat where "MAX_EXPLANATIONS = 50"
definition MAX_SUGGESTIONS :: nat where "MAX_SUGGESTIONS = 20"

subsection \<open>State\<close>

type_synonym cb = nat

datatype cb_op = CallToken cb | CallSubscribe cb | Throw

datatype ready_state = CONNECTING | OPEN | CLOSING | CLOSED

datatype timer_action = ClearNotification | Reconnect

record notif =
  ntype :: jsval
  message :: jsval
  extra :: jsval

text \<open>
  The nine \<^verbatim>\<open>useState\<close> cells and the four refs of the hook, followed by the browser:
  the sockets made by \<^verbatim>\<open>new WebSocket\<close> (a socket is named by its position), the
  pending timers with their due times in milliseconds, the clock, and the log of the
  calls made to frame callbacks. A callback is named by a number, as a function object
  is by its identity. \<^verbatim>\<open>frameListenersRef\<close> is the list of entries of the Set in
  insertion order, as the language definition has it: deleting a value leaves an empty
  entry (None) in its place, adding a value that is not in the Set appends an entry. The
  flag \<^verbatim>\<open>hung\<close> records that a handler did not return.
\<close>

record hook_state =
  connected :: bool
  telemetry :: jsval
  telemetryHistory :: "jsval list"
  decisions :: "jsval list"
  explanations :: "jsval list"
  suggestions :: "jsval list"
  detectionSummary :: jsval
  sourceProgress :: jsval
  notification :: "notif option"
  wsRef :: "nat option"
  retriesRef :: nat
  mountedRef :: bool
  frameListenersRef :: "cb option list"
  sockets :: "ready_state list"
  timers :: "(nat \<times> timer_action) list"
  now :: nat
  delivered :: "(cb \<times> jsval) list"
  hung :: bool

definition initial_state :: hook_state where
  "initial_state =
     \<lparr> connected = False, telemetry = JNull, telemetryHistory = [], decisions = [],
       explanations = [], suggestions = [], detectionSummary = JNull,
       sourceProgress = JNull, notification = None, wsRef = None, retriesRef = 0,
       mountedRef = True, frameListenersRef = [], sockets = [], timers = [], now = 0,
       delivered = [], hung = False \<rparr>"

subsection \<open>Bounded streams\<close>

text \<open>
  \<^verbatim>\<open>xs.slice(-n)\<close>: the start index is \<^verbatim>\<open>max(len - n, 0)\<close>, and \<^verbatim>\<open>-0\<close> is 0, so the
  whole array is returned when n is 0.
\<close>

definition slice_from_end :: "nat \<Rightarrow> 'a list \<Rightarrow> 'a list" where
  "slice_from_end n xs = (if n = 0 then xs else drop (length xs - n) xs)"

text \<open>The updater \<^verbatim>\<open>(prev) => { next = [...prev, x]; return next.length > cap ? next.slice(-cap) : next }\<close>.\<close>

definition append_bounded :: "nat \<Rightarrow> 'a list \<Rightarrow> 'a \<Rightarrow> 'a list" where
  "append_bounded cap prev x =
     (let next = prev @ [x] in if length next > cap then slice_from_end cap next else next)"

subsection \<open>Frame subscribers\<close>

text \<open>\<^verbatim>\<open>Set.prototype.add\<close> and \<^verbatim>\<open>Set.prototype.delete\<close> on the list of entries.\<close>

definition set_add :: "'a \<Rightarrow> 'a option list \<Rightarrow> 'a option list" where
  "set_add c xs = (if Some c \<in> set xs then xs else xs @ [Some c])"

definition set_delete :: "'a \<Rightarrow> 'a option list \<Rightarrow> 'a option list" where
  "set_delete c xs = map (\<lambda>e. if e = Some c then None else e) xs"

definition subscribeToFrames :: "cb \<Rightarrow> hook_state \<Rightarrow> hook_state" where
  "subscribeToFrames c s = s\<lparr>frameListenersRef := set_add c (frameListenersRef s)\<rparr>"

text \<open>The function that \<^verbatim>\<open>subscribeToFrames(c)\<close> returns.\<close>

definition unsubscribe :: "cb \<Rightarrow> hook_state \<Rightarrow> hook_state" where
  "unsubscribe c s = s\<lparr>frameListenersRef := set_delete c (frameListenersRef s)\<rparr>"

text \<open>
  What a callback does to the hook while it runs is a parameter: given the calls logged
  so far, the callback and the payload, the list of its operations. It may call
  unsubscribe tokens (its own or another callback's), it may call
  \<^verbatim>\<open>subscribeToFrames\<close>, and it may throw; an operation after a throw is not reached.
  The operations of a callback change the Set and nothing else of the hook.
\<close>

type_synonym behaviour = "(cb \<times> jsval) list \<Rightarrow> cb \<Rightarrow> jsval \<Rightarrow> cb_op list"

fun run_ops :: "cb_op list \<Rightarrow> cb option list \<Rightarrow> cb option list \<times> bool" where
  "run_ops [] L = (L, False)"
| "run_ops (CallToken c # ops) L = run_ops ops (set_delete c L)"
| "run_ops (CallSubscribe c # ops) L = run_ops ops (set_add c L)"
| "run_ops (Throw # ops) L = (L, True)"

text \<open>
  \<^verbatim>\<open>Set.prototype.forEach\<close> with the callback \<^verbatim>\<open>(cb) => cb(vf.frame)\<close>, from entry i on:
  the entries are visited by position, an empty entry is skipped, and the number of
  entries is read again after each call, so that an entry appended during the walk is
  visited too. The argument \<^verbatim>\<open>vf.frame\<close> is evaluated at each call. L is the list of
  entries and D the log of calls; the boolean of the result tells whether an exception
  left the loop. A walk that does not end has the value None.
\<close>

partial_function (option) walk ::
  "behaviour \<Rightarrow> jsval \<Rightarrow> nat \<Rightarrow> cb option list \<Rightarrow> (cb \<times> jsval) list \<Rightarrow>
     (cb option list \<times> (cb \<times> jsval) list \<times> bool) option" where
  "walk B vf i L D =
     (if i < length L then
        (case L ! i of
           None \<Rightarrow> walk B vf (i + 1) L D
         | Some c \<Rightarrow>
             (case get_prop vf ''frame'' of
                Inl e \<Rightarrow> Some (L, D, True)
              | Inr x \<Rightarrow>
                  (case run_ops (B D c x) L of
                     (L', threw) \<Rightarrow>
                       if threw then Some (L', D @ [(c, x)], True)
                       else walk B vf (i + 1) L' (D @ [(c, x)]))))
      else Some (L, D, False))"

text \<open>\<^verbatim>\<open>frameListenersRef.current.forEach((cb) => cb(vf.frame))\<close>.\<close>

definition forEach_cb :: "behaviour \<Rightarrow> jsval \<Rightarrow> hook_state \<Rightarrow> (hook_state \<times> bool) option" where
  "forEach_cb B vf s =
     (case walk B vf 0 (frameListenersRef s) (delivered s) of
        None \<Rightarrow> None
      | Some (L, D, threw) \<Rightarrow> Some (s\<lparr>frameListenersRef := L, delivered := D\<rparr>, threw))"

subsection \<open>Timers and sockets\<close>

definition setTimeout :: "timer_action \<Rightarrow> nat \<Rightarrow> hook_state \<Rightarrow> hook_state" where
  "setTimeout a d s = s\<lparr>timers := timers s @ [(now s + d, a)]\<rparr>"

text \<open>\<^verbatim>\<open>ws.close()\<close> on socket i: a socket that is connecting or open starts closing.\<close>

definition ws_close :: "nat \<Rightarrow> hook_state \<Rightarrow> hook_state" where
  "ws_close i s =
     (if i < length (sockets s) \<and> (sockets s ! i = CONNECTING \<or> sockets s ! i = OPEN)
      then s\<lparr>sockets := (sockets s)[i := CLOSING]\<rparr> else s)"

subsection \<open>The handlers\<close>

definition connect :: "hook_state \<Rightarrow> hook_state" where
  "connect s =
     (if \<not> mountedRef s then s
      else s\<lparr>sockets := sockets s @ [CONNECTING], wsRef := Some (length (sockets s))\<rparr>)"

definition onopen :: "hook_state \<Rightarrow> hook_state" where
  "onopen s = s\<lparr>connected := True, retriesRef := 0\<rparr>"

text \<open>
  \<^verbatim>\<open>Math.min(1000 * Math.pow(2, retries), 30000)\<close>. On doubles the product is exact
  until it overflows to Infinity, and the minimum is 30000 from retries = 5 on, so the
  value is the one computed here on naturals.
\<close>

definition reconnect_delay :: "nat \<Rightarrow> nat" where
  "reconnect_delay retries = min (1000 * 2 ^ retries) 30000"

text \<open>\<^verbatim>\<open>retriesRef.current++\<close> on a double: adding 1 to 2^53 gives 2^53 again.\<close>

definition exact_limit :: nat where
  "exact_limit = 2 ^ 53"

definition increment :: "nat \<Rightarrow> nat" where
  "increment n = (if n < exact_limit then n + 1 else n)"

definition onclose :: "hook_state \<Rightarrow> hook_state" where
  "onclose s =
     (let s1 = s\<lparr>connected := False\<rparr> in
      if \<not> mountedRef s1 then s1
      else let delay = reconnect_delay (retriesRef s1);
               s2 = s1\<lparr>retriesRef := increment (retriesRef s1)\<rparr>
           in setTimeout Reconnect delay s2)"

definition onerror :: "nat \<Rightarrow> hook_state \<Rightarrow> hook_state" where
  "onerror i s = ws_close i s"

text \<open>
  The body of the \<^verbatim>\<open>try\<close> block of \<^verbatim>\<open>ws.onmessage\<close>, with the state reached and
  the way the body ends. When the walk over the subscribers does not end, neither does
  the handler, and the page handles no further event. This is recorded in \<^verbatim>\<open>hung\<close>,
  with the state that the hook had before the frame: what a run reaches after \<^verbatim>\<open>hung\<close>
  is set is not a state of the page.
\<close>

definition dispatch :: "behaviour \<Rightarrow> jsval \<Rightarrow> jsval \<Rightarrow> hook_state \<Rightarrow> hook_state \<times> outcome" where
  "dispatch B ty d s =
     (if ty = JStr ''telemetry'' then
        (s\<lparr>telemetry := d,
           telemetryHistory := append_bounded MAX_HISTORY (telemetryHistory s) d\<rparr>, Returns)
      else if ty = JStr ''autopilot_decision'' then
        (s\<lparr>decisions := append_bounded MAX_DECISIONS (decisions s) d\<rparr>, Returns)
      else if ty = JStr ''llm_explanation'' then
        (s\<lparr>explanations := append_bounded MAX_EXPLANATIONS (explanations s) d\<rparr>, Returns)
      else if ty = JStr ''video_frame'' then
        (case forEach_cb B d s of
           None \<Rightarrow> (s\<lparr>hung := True\<rparr>, Never_returns)
         | Some (s', threw) \<Rightarrow>
             (s', if threw then
                    Throws (case get_prop d ''frame'' of Inl e \<Rightarrow> e | Inr x \<Rightarrow> CallbackError)
                  else Returns))
      else if ty = JStr ''advisor_suggestion'' then
        (s\<lparr>suggestions := append_bounded MAX_SUGGESTIONS (suggestions s) d\<rparr>, Returns)
      else if ty = JStr ''detection_summary'' then (s\<lparr>detectionSummary := d\<rparr>, Returns)
      else if ty = JStr ''source_progress'' then (s\<lparr>sourceProgress := d\<rparr>, Returns)
      else if ty = JStr ''status'' then
        (case get_prop d ''status'' of
           Inl e \<Rightarrow> (s, Throws e)
         | Inr st \<Rightarrow>
             (case get_prop d ''message'' of
                Inl e \<Rightarrow> (s, Throws e)
              | Inr m \<Rightarrow>
                  (case get_prop d ''extra'' of
                     Inl e \<Rightarrow> (s, Throws e)
                   | Inr x \<Rightarrow>
                       (setTimeout ClearNotification 5000
                          (s\<lparr>notification := Some \<lparr>ntype = st, message = m, extra = x\<rparr>\<rparr>),
                        Returns))))
      else (s, Returns))"

definition try_body :: "behaviour \<Rightarrow> frame \<Rightarrow> hook_state \<Rightarrow> hook_state \<times> outcome" where
  "try_body B fr s =
     (case fr of
        Unparsable \<Rightarrow> (s, Throws SyntaxError)
      | Parsed msg \<Rightarrow>
          (case get_prop msg ''type'' of
             Inl e \<Rightarrow> (s, Throws e)
           | Inr ty \<Rightarrow>
               (case get_prop msg ''data'' of
                  Inl e \<Rightarrow> (s, Throws e)
                | Inr d \<Rightarrow> dispatch B ty d s)))"

text \<open>\<^verbatim>\<open>ws.onmessage\<close>: the \<^verbatim>\<open>catch\<close> takes every exception and does nothing.\<close>

definition onmessage :: "behaviour \<Rightarrow> frame \<Rightarrow> hook_state \<Rightarrow> hook_state" where
  "onmessage B fr s = fst (try_body B fr s)"

definition resetState :: "hook_state \<Rightarrow> hook_state" where
  "resetState s =
     s\<lparr>telemetry := JNull, telemetryHistory := [], decisions := [], explanations := [],
       suggestions := [], detectionSummary := JNull, sourceProgress := JNull,
       notification := None\<rparr>"

text \<open>
  The effect: its body runs on mount, the function it returns on unmount. A state update
  is applied whether the hook is mounted or not.
\<close>

definition mount :: "hook_state \<Rightarrow> hook_state" where
  "mount s = connect (s\<lparr>mountedRef := True\<rparr>)"

definition unmount :: "hook_state \<Rightarrow> hook_state" where
  "unmount s =
     (let s1 = s\<lparr>mountedRef := False\<rparr> in
      case wsRef s1 of None \<Rightarrow> s1 | Some i \<Rightarrow> ws_close i s1)"

subsection \<open>The event loop\<close>

definition fire :: "timer_action \<Rightarrow> hook_state \<Rightarrow> hook_state" where
  "fire a s = (case a of ClearNotification \<Rightarrow> s\<lparr>notification := None\<rparr> | Reconnect \<Rightarrow> connect s)"

text \<open>
  The clock advances by d milliseconds. The timers due by then run in the order of their
  due times, and in the order of their creation when these are equal; neither timer
  callback of the hook sets a timer or reads the clock. Every other event happens at the
  time the clock shows.
\<close>

definition tick :: "nat \<Rightarrow> hook_state \<Rightarrow> hook_state" where
  "tick d s =
     (let t = now s + d;
          due = filter (\<lambda>(u, a). u \<le> t) (timers s);
          rest = filter (\<lambda>(u, a). \<not> u \<le> t) (timers s)
      in fold fire (map snd (sort_key fst due)) (s\<lparr>now := t, timers := rest\<rparr>))"

text \<open>
  What can happen to the hook. The browser delivers \<^verbatim>\<open>open\<close> to a connecting socket,
  \<^verbatim>\<open>message\<close> to an open one, \<^verbatim>\<open>error\<close> and \<^verbatim>\<open>close\<close> to one that is not closed yet,
  and \<^verbatim>\<open>close\<close> once; an event that the browser cannot deliver changes nothing.
\<close>

datatype event =
    Mount
  | Unmount
  | WsOpen nat
  | WsMessage nat frame
  | WsError nat
  | WsClose nat
  | Subscribe cb
  | Unsubscribe cb
  | ResetState
  | Tick nat

definition step :: "behaviour \<Rightarrow> event \<Rightarrow> hook_state \<Rightarrow> hook_state" where
  "step B e s =
     (case e of
        Mount \<Rightarrow> mount s
      | Unmount \<Rightarrow> unmount s
      | WsOpen i \<Rightarrow>
          if i < length (sockets s) \<and> sockets s ! i = CONNECTING
          then onopen (s\<lparr>sockets := (sockets s)[i := OPEN]\<rparr>) else s
      | WsMessage i fr \<Rightarrow>
          if i < length (sockets s) \<and> sockets s ! i = OPEN then onmessage B fr s else s
      | WsError i \<Rightarrow>
          if i < length (sockets s) \<and> sockets s ! i \<noteq> CLOSED then onerror i s else s
      | WsClose i \<Rightarrow>
          if i < length (sockets s) \<and> sockets s ! i \<noteq> CLOSED
          then onclose (s\<lparr>sockets := (sockets s)[i := CLOSED]\<rparr>) else s
      | Subscribe c \<Rightarrow> subscribeToFrames c s
      | Unsubscribe c \<Rightarrow> unsubscribe c s
      | ResetState \<Rightarrow> resetState s
      | Tick d \<Rightarrow> tick d s)"

definition run :: "behaviour \<Rightarrow> event list \<Rightarrow> hook_state \<Rightarrow> hook_state" where
  "run B evs s = fold (step B) evs s"

text \<open>A run of frames handed to \<^verbatim>\<open>ws.onmessage\<close> one after the other.\<close>

definition process :: "behaviour \<Rightarrow> frame list \<Rightarrow> hook_state \<Rightarrow> hook_state" where
  "process B frs s = fold (onmessage B) frs s"

text \<open>
  The payloads that a run of frames appends to the stream of a tag: the \<^verbatim>\<open>data\<close> of each
  frame whose \<^verbatim>\<open>type\<close> is the tag, in the order of arrival.
\<close>

fun payload_of :: "string \<Rightarrow> frame \<Rightarrow> jsval option" where
  "payload_of tag Unparsable = None"
| "payload_of tag (Parsed msg) =
     (if get_prop msg ''type'' = Inr (JStr tag)
      then (case get_prop msg ''data'' of Inl e \<Rightarrow> None | Inr d \<Rightarrow> Some d) else None)"

definition appended :: "string \<Rightarrow> frame list \<Rightarrow> jsval list" where
  "appended tag frs = List.map_filter (payload_of tag) frs"

text \<open>A frame \<^verbatim>\<open>{"type": tag, "data": d}\<close>.\<close>

definition envelope :: "string \<Rightarrow> jsval \<Rightarrow> frame" where
  "envelope tag d = Parsed (JObj [(''type'', JStr tag), (''data'', d)])"

text \<open>The sinks: what the hook publishes from the frames it has received.\<close>

definition sinks ::
  "hook_state \<Rightarrow> jsval \<times> jsval list \<times> jsval list \<times> jsval list \<times> jsval list \<times> jsval \<times> jsval \<times> notif option" where
  "sinks s =
     (telemetry s, telemetryHistory s, decisions s, explanations s, suggestions s,
      detectionSummary s, sourceProgress s, notification s)"

subsection \<open>Predicates used in the statements\<close>

text \<open>The second state differs from the first in the subscriber set and the call log at most.\<close>

definition publisher_only :: "hook_state \<Rightarrow> hook_state \<Rightarrow> bool" where
  "publisher_only s s' \<longleftrightarrow>
     connected s' = connected s \<and> telemetry s' = telemetry s \<and>
     telemetryHistory s' = telemetryHistory s \<and> decisions s' = decisions s \<and>
     explanations s' = explanations s \<and> suggestions s' = suggestions s \<and>
     detectionSummary s' = detectionSummary s \<and> sourceProgress s' = sourceProgress s \<and>
     notification s' = notification s \<and> wsRef s' = wsRef s \<and>
     retriesRef s' = retriesRef s \<and> mountedRef s' = mountedRef s \<and>
     sockets s' = sockets s \<and> timers s' = timers s \<and> now s' = now s"

text \<open>
  A stream h holds the last N of the records xs appended to it: when at least N were
  appended, h is the suffix of xs of length N; when fewer were, h is xs.
\<close>

definition holds_last :: "nat \<Rightarrow> 'a list \<Rightarrow> 'a list \<Rightarrow> bool" where
  "holds_last N xs h \<longleftrightarrow>
     (N \<le> length xs \<longrightarrow> h = drop (length xs - N) xs \<and> length h = N) \<and>
     (length xs < N \<longrightarrow> h = xs)"

text \<open>
  n connection attempts that fail one after the other: socket k, the one made by the
  k-th call of \<^verbatim>\<open>connect\<close>, closes without having opened, and the delay of the
  reconnection elapses.
\<close>

fun failures :: "nat \<Rightarrow> event list" where
  "failures 0 = []"
| "failures (Suc n) = failures n @ [WsClose n, Tick (reconnect_delay n)]"

text \<open>The tags with a \<^verbatim>\<open>case\<close> in the \<^verbatim>\<open>switch\<close> of \<^verbatim>\<open>ws.onmessage\<close>.\<close>

definition recognized_tags :: "string list" where
  "recognized_tags =
     [''telemetry'', ''autopilot_decision'', ''llm_explanation'', ''video_frame'',
      ''advisor_suggestion'', ''detection_summary'', ''source_progress'', ''status'']"

text \<open>
  The second state has the streams, slots, flags and subscribers of the first: a timer
  callback changes the notification, the sockets and \<^verbatim>\<open>wsRef\<close> at most.
\<close>

definition timers_only :: "hook_state \<Rightarrow> hook_state \<Rightarrow> bool" where
  "timers_only s s' \<longleftrightarrow>
     connected s' = connected s \<and> telemetry s' = telemetry s \<and>
     telemetryHistory s' = telemetryHistory s \<and> decisions s' = decisions s \<and>
     explanations s' = explanations s \<and> suggestions s' = suggestions s \<and>
     detectionSummary s' = detectionSummary s \<and> sourceProgress s' = sourceProgress s \<and>
     retriesRef s' = retriesRef s \<and> mountedRef s' = mountedRef s \<and>
     frameListenersRef s' = frameListenersRef s \<and> delivered s' = delivered s"

text \<open>The event is a telemetry frame whose \<^verbatim>\<open>data\<close> is null.\<close>

definition null_telemetry :: "event \<Rightarrow> bool" where
  "null_telemetry e =
     (case e of WsMessage i fr \<Rightarrow> payload_of ''telemetry'' fr = Some JNull | _ \<Rightarrow> False)"

text \<open>Everything but the sinks: the connection flag, the refs and the browser.\<close>

definition non_sinks ::
  "hook_state \<Rightarrow> bool \<times> nat option \<times> nat \<times> bool \<times> cb option list \<times> ready_state list \<times>
     (nat \<times> timer_action) list \<times> nat \<times> (cb \<times> jsval) list \<times> bool" where
  "non_sinks s =
     (connected s, wsRef s, retriesRef s, mountedRef s, frameListenersRef s, sockets s,
      timers s, now s, delivered s, hung s)"

text \<open>A frame \<^verbatim>\<open>{"type": "video_frame", "data": {"frame": x}}\<close>.\<close>

definition video_frame :: "jsval \<Rightarrow> frame" where
  "video_frame x = envelope ''video_frame'' (JObj [(''frame'', x)])"

text \<open>The arguments of the calls made to callback c in a log, in the order of the calls.\<close>

definition log_of :: "cb \<Rightarrow> (cb \<times> jsval) list \<Rightarrow> jsval list" where
  "log_of c D = map snd (filter (\<lambda>(c', x). c' = c) D)"

definition calls :: "cb \<Rightarrow> hook_state \<Rightarrow> jsval list" where
  "calls c s = log_of c (delivered s)"

text \<open>The values of a Set, in insertion order.\<close>

definition members :: "'a option list \<Rightarrow> 'a list" where
  "members L = map the (filter (\<lambda>e. e \<noteq> None) L)"

text \<open>A frame \<^verbatim>\<open>{"type": "status", "data": {"status": st, "message": m}}\<close>.\<close>

definition status_frame :: "string \<Rightarrow> string \<Rightarrow> frame" where
  "status_frame st m = envelope ''status'' (JObj [(''status'', JStr st), (''message'', JStr m)])"

text \<open>The number of pending reconnection timers.\<close>

definition reconnects :: "hook_state \<Rightarrow> nat" where
  "reconnects s = length (filter (\<lambda>(u, a). a = Reconnect) (timers s))"

section \<open>Properties\<close>

subsection \<open>Bounded streams\<close>

lemma append_bounded_drop:
  "0 < cap \<Longrightarrow> append_bounded cap prev x = drop (Suc (length prev) - cap) (prev @ [x])"
  by (simp add: append_bounded_def slice_from_end_def Let_def)

lemma fold_append_bounded:
  "0 < cap \<Longrightarrow> length h \<le> cap \<Longrightarrow>
   fold (\<lambda>x acc. append_bounded cap acc x) xs h = drop (length (h @ xs) - cap) (h @ xs)"
proof (induction xs arbitrary: h)
  case Nil
  then show ?case by simp
next
  case (Cons x xs)
  let ?h' = "append_bounded cap h x"
  have eq: "?h' = drop (Suc (length h) - cap) (h @ [x])"
    using Cons.prems by (simp add: append_bounded_drop)
  have len: "length ?h' \<le> cap"
    using Cons.prems by (simp add: eq)
  have "fold (\<lambda>x acc. append_bounded cap acc x) (x # xs) h
          = drop (length (?h' @ xs) - cap) (?h' @ xs)"
    using Cons.IH[OF Cons.prems(1) len] by simp
  also have "\<dots> = drop (length (h @ x # xs) - cap) (h @ x # xs)"
  proof (cases "length h < cap")
    case True
    then show ?thesis by (simp add: eq)
  next
    case False
    with Cons.prems have "length h = cap" by simp
    then show ?thesis using Cons.prems(1)
      by (simp add: eq drop_Suc)
  qed
  finally show ?case .
qed

text \<open>The publisher returns with a new subscriber set and call log, or it does not return.\<close>

lemma forEach_cb_cases:
  obtains (hangs) "walk B vf 0 (frameListenersRef s) (delivered s) = None"
      "forEach_cb B vf s = None"
  | (returns) L D w where "walk B vf 0 (frameListenersRef s) (delivered s) = Some (L, D, w)"
      "forEach_cb B vf s = Some (s\<lparr>frameListenersRef := L, delivered := D\<rparr>, w)"
proof (cases "walk B vf 0 (frameListenersRef s) (delivered s)")
  case None
  then show ?thesis using hangs by (simp add: forEach_cb_def)
next
  case (Some r)
  obtain L D w where "r = (L, D, w)" by (cases r)
  then show ?thesis using Some returns[of L D w] by (simp add: forEach_cb_def)
qed

lemma fst_dispatch_video:
  "fst (dispatch B (JStr ''video_frame'') d s) =
     (case forEach_cb B d s of None \<Rightarrow> s\<lparr>hung := True\<rparr> | Some (s', w) \<Rightarrow> s')"
  by (simp add: dispatch_def split: option.splits prod.splits)

lemma dispatch_video_publisher_only:
  "publisher_only s (fst (dispatch B (JStr ''video_frame'') d s))"
  by (rule forEach_cb_cases[of B d s]) (simp_all add: fst_dispatch_video publisher_only_def)

lemma dispatch_streams:
  "telemetryHistory (fst (dispatch B ty d s)) =
     (if ty = JStr ''telemetry'' then append_bounded MAX_HISTORY (telemetryHistory s) d
      else telemetryHistory s)"
  "decisions (fst (dispatch B ty d s)) =
     (if ty = JStr ''autopilot_decision'' then append_bounded MAX_DECISIONS (decisions s) d
      else decisions s)"
  "explanations (fst (dispatch B ty d s)) =
     (if ty = JStr ''llm_explanation'' then append_bounded MAX_EXPLANATIONS (explanations s) d
      else explanations s)"
  "suggestions (fst (dispatch B ty d s)) =
     (if ty = JStr ''advisor_suggestion'' then append_bounded MAX_SUGGESTIONS (suggestions s) d
      else suggestions s)"
proof -
  have v: "ty = JStr ''video_frame'' \<Longrightarrow> publisher_only s (fst (dispatch B ty d s))"
    by (simp add: dispatch_video_publisher_only)
  have o: "ty \<noteq> JStr ''video_frame'' \<Longrightarrow>
        telemetryHistory (fst (dispatch B ty d s)) =
          (if ty = JStr ''telemetry'' then append_bounded MAX_HISTORY (telemetryHistory s) d
           else telemetryHistory s) \<and>
        decisions (fst (dispatch B ty d s)) =
          (if ty = JStr ''autopilot_decision'' then append_bounded MAX_DECISIONS (decisions s) d
           else decisions s) \<and>
        explanations (fst (dispatch B ty d s)) =
          (if ty = JStr ''llm_explanation'' then append_bounded MAX_EXPLANATIONS (explanations s) d
           else explanations s) \<and>
        suggestions (fst (dispatch B ty d s)) =
          (if ty = JStr ''advisor_suggestion'' then append_bounded MAX_SUGGESTIONS (suggestions s) d
           else suggestions s)"
    by (simp add: dispatch_def setTimeout_def split: sum.splits)
  show "telemetryHistory (fst (dispatch B ty d s)) =
     (if ty = JStr ''telemetry'' then append_bounded MAX_HISTORY (telemetryHistory s) d
      else telemetryHistory s)"
    using v o by (cases "ty = JStr ''video_frame''") (simp_all add: publisher_only_def)
  show "decisions (fst (dispatch B ty d s)) =
     (if ty = JStr ''autopilot_decision'' then append_bounded MAX_DECISIONS (decisions s) d
      else decisions s)"
    using v o by (cases "ty = JStr ''video_frame''") (simp_all add: publisher_only_def)
  show "explanations (fst (dispatch B ty d s)) =
     (if ty = JStr ''llm_explanation'' then append_bounded MAX_EXPLANATIONS (explanations s) d
      else explanations s)"
    using v o by (cases "ty = JStr ''video_frame''") (simp_all add: publisher_only_def)
  show "suggestions (fst (dispatch B ty d s)) =
     (if ty = JStr ''advisor_suggestion'' then append_bounded MAX_SUGGESTIONS (suggestions s) d
      else suggestions s)"
    using v o by (cases "ty = JStr ''video_frame''") (simp_all add: publisher_only_def)
qed

text \<open>A frame reaches \<open>dispatch\<close>, or it leaves the state as it is.\<close>

lemma onmessage_cases:
  obtains (ignored) "onmessage B fr s = s" "\<And>tag. payload_of tag fr = None"
  | (dispatched) msg ty d where "fr = Parsed msg" "get_prop msg ''type'' = Inr ty"
      "get_prop msg ''data'' = Inr d" "onmessage B fr s = fst (dispatch B ty d s)"
      "\<And>tag. payload_of tag fr = (if ty = JStr tag then Some d else None)"
proof (cases fr)
  case Unparsable
  then show ?thesis using ignored by (simp add: onmessage_def try_body_def)
next
  case (Parsed msg)
  show ?thesis
  proof (cases "get_prop msg ''type''")
    case (Inl e)
    then show ?thesis using Parsed ignored by (simp add: onmessage_def try_body_def)
  next
    case ty: (Inr ty)
    show ?thesis
    proof (cases "get_prop msg ''data''")
      case (Inl e)
      then show ?thesis using Parsed ty ignored by (simp add: onmessage_def try_body_def)
    next
      case (Inr d)
      then show ?thesis using Parsed ty dispatched[of msg ty d]
        by (simp add: onmessage_def try_body_def)
    qed
  qed
qed

lemma onmessage_stream:
  assumes "\<And>ty d s. sel (fst (dispatch B ty d s)) =
             (if ty = JStr tag then append_bounded cap (sel s) d else sel s)"
  shows "sel (onmessage B fr s) =
           (case payload_of tag fr of None \<Rightarrow> sel s | Some d \<Rightarrow> append_bounded cap (sel s) d)"
  by (rule onmessage_cases[of B fr s]) (simp_all add: assms)

lemma process_stream:
  assumes "\<And>ty d s. sel (fst (dispatch B ty d s)) =
             (if ty = JStr tag then append_bounded cap (sel s) d else sel s)"
  shows "sel (process B frs s) =
           fold (\<lambda>x acc. append_bounded cap acc x) (appended tag frs) (sel s)"
proof (induction frs arbitrary: s)
  case Nil
  show ?case by (simp add: process_def appended_def List.map_filter_simps)
next
  case (Cons fr frs)
  have "process B (fr # frs) s = process B frs (onmessage B fr s)"
    by (simp add: process_def)
  then show ?case
    using Cons.IH[of "onmessage B fr s"] onmessage_stream[OF assms, of fr s]
    by (simp add: appended_def List.map_filter_simps split: option.splits)
qed

lemma fold_holds_last:
  "0 < cap \<Longrightarrow> holds_last cap xs (fold (\<lambda>x acc. append_bounded cap acc x) xs [])"
  by (simp add: fold_append_bounded holds_last_def)

lemma appended_envelopes: "appended tag (map (envelope tag) xs) = xs"
  by (induction xs) (simp_all add: appended_def List.map_filter_simps envelope_def)

lemma appended_other:
  "tag \<noteq> tag' \<Longrightarrow> appended tag (map (envelope tag') xs) = []"
  by (induction xs) (simp_all add: appended_def List.map_filter_simps envelope_def)

text \<open>
  Claim C1. Each of the four bounded streams (telemetry history with capacity 120,
  decisions 50, explanations 50, suggestions 20), empty before a run of frames, holds
  after the run exactly the last N payloads that the run appended to it, in the order of
  arrival, when the run appended at least N, and all of them when it appended fewer.
\<close>

theorem bounded_streams_hold_last_N:
  assumes "telemetryHistory s = []" and "decisions s = []"
    and "explanations s = []" and "suggestions s = []"
  shows "holds_last MAX_HISTORY (appended ''telemetry'' frs) (telemetryHistory (process B frs s)) \<and>
         holds_last MAX_DECISIONS (appended ''autopilot_decision'' frs) (decisions (process B frs s)) \<and>
         holds_last MAX_EXPLANATIONS (appended ''llm_explanation'' frs) (explanations (process B frs s)) \<and>
         holds_last MAX_SUGGESTIONS (appended ''advisor_suggestion'' frs) (suggestions (process B frs s))"
proof -
  have "holds_last MAX_HISTORY (appended ''telemetry'' frs) (telemetryHistory (process B frs s))"
    using process_stream[of telemetryHistory B "''telemetry''" MAX_HISTORY frs s]
      fold_holds_last[of MAX_HISTORY "appended ''telemetry'' frs"] assms(1)
    by (simp add: dispatch_streams MAX_HISTORY_def)
  moreover have "holds_last MAX_DECISIONS (appended ''autopilot_decision'' frs) (decisions (process B frs s))"
    using process_stream[of decisions B "''autopilot_decision''" MAX_DECISIONS frs s]
      fold_holds_last[of MAX_DECISIONS "appended ''autopilot_decision'' frs"] assms(2)
    by (simp add: dispatch_streams MAX_DECISIONS_def)
  moreover have "holds_last MAX_EXPLANATIONS (appended ''llm_explanation'' frs) (explanations (process B frs s))"
    using process_stream[of explanations B "''llm_explanation''" MAX_EXPLANATIONS frs s]
      fold_holds_last[of MAX_EXPLANATIONS "appended ''llm_explanation'' frs"] assms(3)
    by (simp add: dispatch_streams MAX_EXPLANATIONS_def)
  moreover have "holds_last MAX_SUGGESTIONS (appended ''advisor_suggestion'' frs) (suggestions (process B frs s))"
    using process_stream[of suggestions B "''advisor_suggestion''" MAX_SUGGESTIONS frs s]
      fold_holds_last[of MAX_SUGGESTIONS "appended ''advisor_suggestion'' frs"] assms(4)
    by (simp add: dispatch_streams MAX_SUGGESTIONS_def)
  ultimately show ?thesis by blast
qed

theorem bounded_streams_hold_last_N_witness:
  "telemetryHistory initial_state = [] \<and> decisions initial_state = [] \<and>
   explanations initial_state = [] \<and> suggestions initial_state = [] \<and>
   telemetryHistory
     (process (\<lambda>log c x. []) (map (envelope ''telemetry'') (map (\<lambda>i. JNum (int i)) [1..<131]))
        initial_state) = map (\<lambda>i. JNum (int i)) [11..<131] \<and>
   decisions
     (process (\<lambda>log c x. []) (map (envelope ''telemetry'') (map (\<lambda>i. JNum (int i)) [1..<131]))
        initial_state) = []"
proof -
  let ?B = "(\<lambda>log c x. []) :: behaviour"
  let ?xs = "map (\<lambda>i. JNum (int i)) [1..<131]"
  let ?fs = "map (envelope ''telemetry'') ?xs"
  have e: "telemetryHistory initial_state = []" "decisions initial_state = []"
    "explanations initial_state = []" "suggestions initial_state = []"
    by (simp_all add: initial_state_def)
  note t = bounded_streams_hold_last_N[OF e, of ?fs ?B]
  have h: "holds_last MAX_HISTORY ?xs (telemetryHistory (process ?B ?fs initial_state))"
    using t by (simp only: appended_envelopes)
  have "MAX_HISTORY \<le> length ?xs" by (simp add: MAX_HISTORY_def)
  then have "telemetryHistory (process ?B ?fs initial_state) = drop (length ?xs - MAX_HISTORY) ?xs"
    using h unfolding holds_last_def by blast
  also have "\<dots> = map (\<lambda>i. JNum (int i)) [11..<131]"
    by (simp add: MAX_HISTORY_def drop_map)
  finally have h1: "telemetryHistory (process ?B ?fs initial_state) = map (\<lambda>i. JNum (int i)) [11..<131]" .
  have a: "appended ''autopilot_decision'' ?fs = []"
    by (rule appended_other) simp
  have "holds_last MAX_DECISIONS [] (decisions (process ?B ?fs initial_state))"
    using t by (simp only: a)
  then have h2: "decisions (process ?B ?fs initial_state) = []"
    by (simp add: holds_last_def MAX_DECISIONS_def)
  show ?thesis using e h1 h2 by blast
qed

subsection \<open>Reconnection\<close>

lemma reconnect_delay_capped: "5 \<le> n \<Longrightarrow> reconnect_delay n = 30000"
proof -
  assume "5 \<le> n"
  then have "(2::nat) ^ 5 \<le> 2 ^ n" by (intro power_increasing) simp_all
  then show ?thesis by (simp add: reconnect_delay_def)
qed

lemma reconnect_delay_saturated: "reconnect_delay (min n exact_limit) = reconnect_delay n"
proof (cases "n \<le> exact_limit")
  case True
  then show ?thesis by (simp add: min_def)
next
  case False
  have l: "5 \<le> exact_limit" by (simp add: exact_limit_def)
  with False have "5 \<le> n" and "min n exact_limit = exact_limit" by simp_all
  then show ?thesis using l by (simp add: reconnect_delay_capped)
qed

lemma increment_min: "increment (min n exact_limit) = min (Suc n) exact_limit"
  by (simp add: increment_def min_def)

lemma run_append: "run B (xs @ ys) s = run B ys (run B xs s)"
  by (simp add: run_def)

lemma run_Cons: "run B (e # es) s = run B es (step B e s)"
  by (simp add: run_def)

lemma run_Nil: "run B [] s = s"
  by (simp add: run_def)

lemma close_while_connecting:
  assumes "sockets s = replicate n CLOSED @ [CONNECTING]" "retriesRef s = min n exact_limit"
    "timers s = []" "mountedRef s"
  shows "sockets (step B (WsClose n) s) = replicate (Suc n) CLOSED"
    "retriesRef (step B (WsClose n) s) = min (Suc n) exact_limit"
    "timers (step B (WsClose n) s) = [(now s + reconnect_delay n, Reconnect)]"
    "mountedRef (step B (WsClose n) s)"
    "now (step B (WsClose n) s) = now s"
    "\<not> connected (step B (WsClose n) s)"
  using assms
  by (simp_all add: step_def onclose_def setTimeout_def Let_def nth_append list_update_append
      reconnect_delay_saturated increment_min replicate_append_same)

lemma reconnect_after_close:
  assumes "sockets s = replicate (Suc n) CLOSED" "timers s = [(now s + d, Reconnect)]" "mountedRef s"
  shows "sockets (step B (Tick d) s) = replicate (Suc n) CLOSED @ [CONNECTING]"
    "wsRef (step B (Tick d) s) = Some (Suc n)"
    "timers (step B (Tick d) s) = []"
    "mountedRef (step B (Tick d) s)"
    "retriesRef (step B (Tick d) s) = retriesRef s"
  using assms
  by (simp_all add: step_def tick_def Let_def fire_def connect_def)

lemma after_failures:
  "sockets (run B (failures n) (mount initial_state)) = replicate n CLOSED @ [CONNECTING] \<and>
   wsRef (run B (failures n) (mount initial_state)) = Some n \<and>
   retriesRef (run B (failures n) (mount initial_state)) = min n exact_limit \<and>
   timers (run B (failures n) (mount initial_state)) = [] \<and>
   mountedRef (run B (failures n) (mount initial_state))"
proof (induction n)
  case 0
  show ?case by (simp add: run_Nil mount_def connect_def initial_state_def)
next
  case (Suc n)
  let ?s = "run B (failures n) (mount initial_state)"
  let ?c = "step B (WsClose n) ?s"
  have r: "run B (failures (Suc n)) (mount initial_state) = step B (Tick (reconnect_delay n)) ?c"
    by (simp add: run_append run_Cons run_Nil)
  note c = close_while_connecting[of ?s n B]
  have c1: "sockets ?c = replicate (Suc n) CLOSED" using Suc.IH c(1) by blast
  have c2: "retriesRef ?c = min (Suc n) exact_limit" using Suc.IH c(2) by blast
  have c3: "timers ?c = [(now ?c + reconnect_delay n, Reconnect)]" using Suc.IH c(3) c(5) by simp
  have c4: "mountedRef ?c" using Suc.IH c(4) by blast
  note t = reconnect_after_close[OF c1 c3 c4, of B]
  show ?case unfolding r using t c2 by simp
qed


lemma open_while_connecting:
  assumes "sockets s = replicate n CLOSED @ [CONNECTING]"
  shows "step B (WsOpen n) s = (s\<lparr>sockets := replicate n CLOSED @ [OPEN]\<rparr>)\<lparr>connected := True, retriesRef := 0\<rparr>"
  using assms by (simp add: step_def onopen_def nth_append list_update_append)

text \<open>
  Claim C2. From a freshly mounted hook (retry counter 0), after n connection attempts
  have failed one after the other (n sockets closed, the next one connecting), the close
  of that socket schedules the reconnection after min (1000 * 2 ^ n) 30000 milliseconds
  and then increments the retry counter (to n + 1, below the 2^53 where a double stops
  counting); in seconds the delays are 1, 2, 4, 8, 16, 30, 30 and stay 30. If that socket
  opens instead, the retry counter is 0 again and its later close schedules the
  reconnection after 1000 milliseconds.
\<close>

theorem reconnect_backoff:
  "sockets (run B (failures n) (mount initial_state)) = replicate n CLOSED @ [CONNECTING] \<and>
   timers (step B (WsClose n) (run B (failures n) (mount initial_state))) =
     [(now (run B (failures n) (mount initial_state)) + min (1000 * 2 ^ n) 30000, Reconnect)] \<and>
   retriesRef (step B (WsClose n) (run B (failures n) (mount initial_state))) =
     min (Suc n) exact_limit \<and>
   retriesRef (step B (WsOpen n) (run B (failures n) (mount initial_state))) = 0 \<and>
   timers (step B (WsClose n) (step B (WsOpen n) (run B (failures n) (mount initial_state)))) =
     [(now (run B (failures n) (mount initial_state)) + 1000, Reconnect)] \<and>
   map (\<lambda>k. reconnect_delay k div 1000) [0, 1, 2, 3, 4, 5, 6] = [1, 2, 4, 8, 16, 30, 30] \<and>
   reconnect_delay (n + 5) = 30000"
proof -
  let ?s = "run B (failures n) (mount initial_state)"
  note a = after_failures[of B n]
  note c = close_while_connecting[of ?s n B]
  have 1: "timers (step B (WsClose n) ?s) = [(now ?s + min (1000 * 2 ^ n) 30000, Reconnect)]"
    using a c(3) by (simp add: reconnect_delay_def)
  have 2: "retriesRef (step B (WsClose n) ?s) = min (Suc n) exact_limit"
    using a c(2) by blast
  have o: "step B (WsOpen n) ?s =
      (?s\<lparr>sockets := replicate n CLOSED @ [OPEN]\<rparr>)\<lparr>connected := True, retriesRef := 0\<rparr>"
    using a by (simp add: open_while_connecting)
  have 3: "retriesRef (step B (WsOpen n) ?s) = 0"
    by (simp add: o)
  have 4: "timers (step B (WsClose n) (step B (WsOpen n) ?s)) = [(now ?s + 1000, Reconnect)]"
    unfolding o using a
    by (simp add: step_def onclose_def setTimeout_def Let_def nth_append reconnect_delay_def)
  have 5: "map (\<lambda>k. reconnect_delay k div 1000) [0, 1, 2, 3, 4, 5, 6] = [1, 2, 4, 8, 16, 30, 30]"
    by (simp add: reconnect_delay_def)
  have 6: "reconnect_delay (n + 5) = 30000"
    by (simp add: reconnect_delay_capped)
  show ?thesis using a 1 2 3 4 5 6 by blast
qed

theorem reconnect_backoff_witness:
  "timers (step (\<lambda>log c x. []) (WsClose 6) (run (\<lambda>log c x. []) (failures 6) (mount initial_state))) =
     [(now (run (\<lambda>log c x. []) (failures 6) (mount initial_state)) + 30000, Reconnect)] \<and>
   retriesRef (step (\<lambda>log c x. []) (WsClose 6) (run (\<lambda>log c x. []) (failures 6) (mount initial_state))) = 7"
  using reconnect_backoff[of "\<lambda>log c x. []" 6] by (simp add: exact_limit_def)

subsection \<open>Frames that are not dispatched\<close>

lemma dispatch_unrecognized:
  assumes "ty \<notin> JStr ` set recognized_tags"
  shows "dispatch B ty d s = (s, Returns)"
  using assms by (simp add: dispatch_def recognized_tags_def image_iff)

lemma walk_end: "\<not> i < length L \<Longrightarrow> walk B vf i L D = Some (L, D, False)"
  by (subst walk.simps) simp

lemma walk_hole:
  "i < length L \<Longrightarrow> L ! i = None \<Longrightarrow> walk B vf i L D = walk B vf (i + 1) L D"
  by (subst walk.simps) simp

lemma walk_frame_error:
  "i < length L \<Longrightarrow> L ! i = Some c \<Longrightarrow> get_prop vf ''frame'' = Inl e \<Longrightarrow>
   walk B vf i L D = Some (L, D, True)"
  by (subst walk.simps) simp

lemma walk_call:
  "i < length L \<Longrightarrow> L ! i = Some c \<Longrightarrow> get_prop vf ''frame'' = Inr x \<Longrightarrow>
   run_ops (B D c x) L = (L', w) \<Longrightarrow>
   walk B vf i L D =
     (if w then Some (L', D @ [(c, x)], True) else walk B vf (i + 1) L' (D @ [(c, x)]))"
  by (subst walk.simps) simp

text \<open>
  When \<^verbatim>\<open>vf.frame\<close> cannot be read, the walk ends at the first subscriber, before any
  call: the subscriber set and the call log are as they were.
\<close>

lemma walk_frame_throws:
  assumes "get_prop vf ''frame'' = Inl e"
  shows "\<exists>w. walk B vf i L D = Some (L, D, w)"
proof (induction "length L - i" arbitrary: i rule: less_induct)
  case less
  show ?case
  proof (cases "i < length L")
    case False
    then show ?thesis by (auto simp: walk_end)
  next
    case True
    show ?thesis
    proof (cases "L ! i")
      case None
      have "\<exists>w. walk B vf (i + 1) L D = Some (L, D, w)"
        using True by (intro less) simp
      then show ?thesis using True None by (simp add: walk_hole)
    next
      case (Some c)
      then show ?thesis using True assms by (auto simp: walk_frame_error)
    qed
  qed
qed

lemma dispatch_video_unreadable:
  assumes "get_prop d ''frame'' = Inl e"
  shows "fst (dispatch B (JStr ''video_frame'') d s) = s \<and>
         snd (dispatch B (JStr ''video_frame'') d s) \<noteq> Never_returns"
proof -
  obtain w where "walk B d 0 (frameListenersRef s) (delivered s) =
      Some (frameListenersRef s, delivered s, w)"
    using walk_frame_throws[OF assms] by blast
  then show ?thesis by (simp add: dispatch_def forEach_cb_def)
qed

lemma dispatch_status_unreadable:
  assumes "get_prop d ''status'' = Inl e"
  shows "dispatch B (JStr ''status'') d s = (s, Throws e)"
  using assms by (simp add: dispatch_def)

text \<open>
  Claim C3 as stated fails for a frame that is not a well-formed envelope but carries a
  recognized tag: the handler does not check the body. A telemetry frame without
  \<^verbatim>\<open>data\<close> stores \<^verbatim>\<open>undefined\<close> in the slot and in the history, and a status frame
  whose \<^verbatim>\<open>data\<close> is the number 5 posts a notification whose fields are all
  \<^verbatim>\<open>undefined\<close> and sets its timer.
\<close>

theorem recognized_tag_with_malformed_body_is_stored:
  "telemetry
     (onmessage (\<lambda>log c x. []) (Parsed (JObj [(''type'', JStr ''telemetry'')])) initial_state) =
     JUndefined \<and>
   telemetryHistory
     (onmessage (\<lambda>log c x. []) (Parsed (JObj [(''type'', JStr ''telemetry'')])) initial_state) =
     [JUndefined] \<and>
   notification
     (onmessage (\<lambda>log c x. []) (Parsed (JObj [(''type'', JStr ''status''), (''data'', JNum 5)]))
        initial_state) =
     Some \<lparr>ntype = JUndefined, message = JUndefined, extra = JUndefined\<rparr> \<and>
   timers
     (onmessage (\<lambda>log c x. []) (Parsed (JObj [(''type'', JStr ''status''), (''data'', JNum 5)]))
        initial_state) =
     [(5000, ClearNotification)]"
  by (simp add: onmessage_def try_body_def dispatch_def initial_state_def append_bounded_def
      MAX_HISTORY_def setTimeout_def)

text \<open>
  Claim C3, amended. A frame that cannot be decoded (\<^verbatim>\<open>JSON.parse\<close> throws), a decoded
  frame whose type tag is none of the eight recognized ones (also a decoded value that is
  no object, or has no tag), and a status or video frame whose \<^verbatim>\<open>data\<close> is null or
  missing, leave the whole state as it is: every bounded stream, every latest-value
  slot, the notification, the pending timers, the subscriber set and the log of the calls
  made to frame callbacks. The handler returns: an exception is raised inside the
  \<^verbatim>\<open>try\<close> block, whose \<^verbatim>\<open>catch\<close> takes it. Every other frame with a recognized tag is
  dispatched without a check of its body.
\<close>

theorem undecodable_and_unrecognized_frames_change_nothing:
  "try_body B Unparsable s = (s, Throws SyntaxError) \<and>
   onmessage B Unparsable s = s \<and>
   step B (WsMessage i Unparsable) s = s \<and>
   (get_prop msg ''type'' \<notin> (\<lambda>t. Inr (JStr t)) ` set recognized_tags \<longrightarrow>
      onmessage B (Parsed msg) s = s \<and> step B (WsMessage i (Parsed msg)) s = s \<and>
      snd (try_body B (Parsed msg) s) \<noteq> Never_returns) \<and>
   (get_prop msg ''type'' \<in> {Inr (JStr ''status''), Inr (JStr ''video_frame'')} \<and>
    get_prop msg ''data'' \<in> {Inr JNull, Inr JUndefined} \<longrightarrow>
      onmessage B (Parsed msg) s = s \<and> step B (WsMessage i (Parsed msg)) s = s \<and>
      snd (try_body B (Parsed msg) s) \<noteq> Never_returns)"
proof -
  have 1: "try_body B Unparsable s = (s, Throws SyntaxError)"
    by (simp add: try_body_def)
  then have 2: "onmessage B Unparsable s = s"
    by (simp add: onmessage_def)
  have 3: "fst (try_body B (Parsed msg) s) = s \<and> snd (try_body B (Parsed msg) s) \<noteq> Never_returns"
    if u: "get_prop msg ''type'' \<notin> (\<lambda>t. Inr (JStr t)) ` set recognized_tags"
  proof (cases "get_prop msg ''type''")
    case (Inl e)
    then show ?thesis by (simp add: try_body_def)
  next
    case (Inr ty)
    with u have "ty \<notin> JStr ` set recognized_tags" by auto
    then show ?thesis
      using Inr by (simp add: try_body_def dispatch_unrecognized split: sum.splits)
  qed
  have 4: "fst (try_body B (Parsed msg) s) = s \<and> snd (try_body B (Parsed msg) s) \<noteq> Never_returns"
    if t: "get_prop msg ''type'' \<in> {Inr (JStr ''status''), Inr (JStr ''video_frame'')}"
      and d: "get_prop msg ''data'' \<in> {Inr JNull, Inr JUndefined}"
  proof -
    obtain dv where dv: "get_prop msg ''data'' = Inr dv" "dv = JNull \<or> dv = JUndefined"
      using d by auto
    then have g: "get_prop dv ''status'' = Inl TypeError" "get_prop dv ''frame'' = Inl TypeError"
      by auto
    show ?thesis
    proof (cases "get_prop msg ''type'' = Inr (JStr ''status'')")
      case True
      then show ?thesis
        using dv(1) dispatch_status_unreadable[OF g(1), of B s] by (simp add: try_body_def)
    next
      case False
      then have "get_prop msg ''type'' = Inr (JStr ''video_frame'')" using t by simp
      then show ?thesis
        using dv(1) dispatch_video_unreadable[OF g(2), of B s] by (simp add: try_body_def)
    qed
  qed
  show ?thesis using 1 2 3 4 by (simp add: step_def onmessage_def)
qed

theorem undecodable_and_unrecognized_frames_change_nothing_witness:
  "get_prop (JObj [(''type'', JStr ''ping''), (''data'', JNull)]) ''type''
     \<notin> (\<lambda>t. Inr (JStr t)) ` set recognized_tags \<and>
   onmessage (\<lambda>log c x. []) (Parsed (JObj [(''type'', JStr ''ping''), (''data'', JNull)]))
     (mount initial_state) = mount initial_state \<and>
   onmessage (\<lambda>log c x. []) Unparsable (mount initial_state) = mount initial_state \<and>
   get_prop (JObj [(''type'', JStr ''video_frame'')]) ''type''
     \<in> {Inr (JStr ''status''), Inr (JStr ''video_frame'')} \<and>
   get_prop (JObj [(''type'', JStr ''video_frame'')]) ''data'' \<in> {Inr JNull, Inr JUndefined} \<and>
   onmessage (\<lambda>log c x. []) (Parsed (JObj [(''type'', JStr ''video_frame'')]))
     (subscribeToFrames 4 (mount initial_state)) = subscribeToFrames 4 (mount initial_state)"
proof -
  have h: "get_prop (JObj [(''type'', JStr ''ping''), (''data'', JNull)]) ''type''
     \<notin> (\<lambda>t. Inr (JStr t)) ` set recognized_tags"
    by (simp add: recognized_tags_def image_iff)
  have k: "get_prop (JObj [(''type'', JStr ''video_frame'')]) ''type''
     \<in> {Inr (JStr ''status''), Inr (JStr ''video_frame'')}"
    "get_prop (JObj [(''type'', JStr ''video_frame'')]) ''data'' \<in> {Inr JNull, Inr JUndefined}"
    by simp_all
  show ?thesis
    using h k
      undecodable_and_unrecognized_frames_change_nothing
        [of "\<lambda>log c x. []" "mount initial_state" 0
          "JObj [(''type'', JStr ''ping''), (''data'', JNull)]"]
      undecodable_and_unrecognized_frames_change_nothing
        [of "\<lambda>log c x. []" "subscribeToFrames 4 (mount initial_state)" 0
          "JObj [(''type'', JStr ''video_frame'')]"]
    by blast
qed

subsection \<open>What timers and connection events leave alone\<close>

lemma fold_fire_timers_only: "timers_only s (fold fire as s)"
proof (induction as arbitrary: s)
  case Nil
  show ?case by (simp add: timers_only_def)
next
  case (Cons a as)
  have "timers_only s (fire a s)"
    by (cases a) (simp_all add: fire_def connect_def timers_only_def)
  then show ?case using Cons.IH[of "fire a s"] by (simp add: timers_only_def)
qed

lemma tick_timers_only: "timers_only s (tick d s)"
  using fold_fire_timers_only[of "s\<lparr>now := now s + d,
      timers := filter (\<lambda>(u, a). \<not> u \<le> now s + d) (timers s)\<rparr>"]
  by (simp add: tick_def Let_def timers_only_def)

lemma fold_fire_notification:
  "ClearNotification \<notin> set as \<Longrightarrow> notification (fold fire as s) = notification s"
proof (induction as arbitrary: s)
  case Nil
  show ?case by simp
next
  case (Cons a as)
  then have "a = Reconnect" by (cases a) simp_all
  then have "notification (fire a s) = notification s" by (simp add: fire_def connect_def)
  then show ?case using Cons by simp
qed

lemma tick_notification:
  assumes "\<forall>(u, a) \<in> set (timers s). a = ClearNotification \<longrightarrow> now s + d < u"
  shows "notification (tick d s) = notification s"
proof -
  have "ClearNotification \<notin> set (map snd (sort_key fst (filter (\<lambda>(u, a). u \<le> now s + d) (timers s))))"
    using assms by (auto simp: image_iff)
  then show ?thesis
    by (simp add: tick_def Let_def fold_fire_notification del: set_map)
qed

lemma connection_events_sinks:
  "sinks (step B (WsClose i) s) = sinks s"
  "sinks (step B (WsError i) s) = sinks s"
  "sinks (step B (WsOpen i) s) = sinks s"
  "sinks (step B Mount s) = sinks s"
  "sinks (step B Unmount s) = sinks s"
  "sinks (step B (Subscribe c) s) = sinks s"
  "sinks (step B (Unsubscribe c) s) = sinks s"
  "sinks (connect s) = sinks s"
  by (simp_all add: step_def sinks_def onclose_def onerror_def ws_close_def onopen_def
      mount_def unmount_def connect_def setTimeout_def subscribeToFrames_def unsubscribe_def
      Let_def split: option.splits)

lemma tick_sinks:
  assumes "\<forall>(u, a) \<in> set (timers s). a = ClearNotification \<longrightarrow> now s + d < u"
  shows "sinks (tick d s) = sinks s"
  using tick_timers_only[of s d] tick_notification[OF assms]
  by (simp add: sinks_def timers_only_def)

lemma append_bounded_nonempty: "0 < cap \<Longrightarrow> append_bounded cap prev x \<noteq> []"
  by (simp add: append_bounded_drop)

lemma onmessage_stream_nonempty:
  assumes "\<And>ty d s. sel (fst (dispatch B ty d s)) =
             (if ty = JStr tag then append_bounded cap (sel s) d else sel s)"
    and "0 < cap" and "sel s \<noteq> []"
  shows "sel (onmessage B fr s) \<noteq> []"
  using onmessage_stream[of sel B tag cap fr s, OF assms(1)] assms(2,3)
  by (simp add: append_bounded_nonempty split: option.splits)

lemma step_streams_nonempty:
  assumes "e \<noteq> ResetState"
  shows "telemetryHistory s \<noteq> [] \<Longrightarrow> telemetryHistory (step B e s) \<noteq> []"
    and "decisions s \<noteq> [] \<Longrightarrow> decisions (step B e s) \<noteq> []"
    and "explanations s \<noteq> [] \<Longrightarrow> explanations (step B e s) \<noteq> []"
    and "suggestions s \<noteq> [] \<Longrightarrow> suggestions (step B e s) \<noteq> []"
proof -
  have m: "telemetryHistory s \<noteq> [] \<Longrightarrow> telemetryHistory (onmessage B fr s) \<noteq> []"
    "decisions s \<noteq> [] \<Longrightarrow> decisions (onmessage B fr s) \<noteq> []"
    "explanations s \<noteq> [] \<Longrightarrow> explanations (onmessage B fr s) \<noteq> []"
    "suggestions s \<noteq> [] \<Longrightarrow> suggestions (onmessage B fr s) \<noteq> []" for fr
    using onmessage_stream_nonempty[of telemetryHistory B "''telemetry''" MAX_HISTORY s fr]
      onmessage_stream_nonempty[of decisions B "''autopilot_decision''" MAX_DECISIONS s fr]
      onmessage_stream_nonempty[of explanations B "''llm_explanation''" MAX_EXPLANATIONS s fr]
      onmessage_stream_nonempty[of suggestions B "''advisor_suggestion''" MAX_SUGGESTIONS s fr]
    by (simp_all add: dispatch_streams MAX_HISTORY_def MAX_DECISIONS_def MAX_EXPLANATIONS_def
        MAX_SUGGESTIONS_def)
  have t: "timers_only s (tick d s)" for d by (rule tick_timers_only)
  have c: "e \<noteq> ResetState \<Longrightarrow> (\<forall>i fr. e \<noteq> WsMessage i fr) \<Longrightarrow> (\<forall>d. e \<noteq> Tick d) \<Longrightarrow>
       sinks (step B e s) = sinks s"
    by (cases e) (simp_all add: connection_events_sinks)
  show "telemetryHistory s \<noteq> [] \<Longrightarrow> telemetryHistory (step B e s) \<noteq> []"
    using assms m(1) t c by (cases e) (auto simp: step_def timers_only_def sinks_def)
  show "decisions s \<noteq> [] \<Longrightarrow> decisions (step B e s) \<noteq> []"
    using assms m(2) t c by (cases e) (auto simp: step_def timers_only_def sinks_def)
  show "explanations s \<noteq> [] \<Longrightarrow> explanations (step B e s) \<noteq> []"
    using assms m(3) t c by (cases e) (auto simp: step_def timers_only_def sinks_def)
  show "suggestions s \<noteq> [] \<Longrightarrow> suggestions (step B e s) \<noteq> []"
    using assms m(4) t c by (cases e) (auto simp: step_def timers_only_def sinks_def)
qed

text \<open>
  Claim C7. The close of a socket, its error, the reconnection and the open of the new
  socket leave every sink (the four bounded streams, the three latest-value slots, the
  notification) as it was, and so does a whole cycle of close, waiting and open during
  which no notification expires. No event but an explicit reset empties a bounded stream
  that holds records. An explicit reset empties every stream, every slot and the
  notification, and a telemetry envelope received after it is stored in the slot and in
  the history.
\<close>

theorem reconnect_keeps_sinks_reset_clears:
  "sinks (step B (WsClose i) s) = sinks s \<and>
   sinks (step B (WsError i) s) = sinks s \<and>
   sinks (fire Reconnect s) = sinks s \<and>
   sinks (step B (WsOpen j) s) = sinks s \<and>
   ((\<forall>(u, a) \<in> set (timers s). a = ClearNotification \<longrightarrow> now s + d < u) \<longrightarrow>
      sinks (run B [WsClose i, Tick d, WsOpen j] s) = sinks s) \<and>
   (e \<noteq> ResetState \<longrightarrow>
      (telemetryHistory s \<noteq> [] \<longrightarrow> telemetryHistory (step B e s) \<noteq> []) \<and>
      (decisions s \<noteq> [] \<longrightarrow> decisions (step B e s) \<noteq> []) \<and>
      (explanations s \<noteq> [] \<longrightarrow> explanations (step B e s) \<noteq> []) \<and>
      (suggestions s \<noteq> [] \<longrightarrow> suggestions (step B e s) \<noteq> [])) \<and>
   sinks (step B ResetState s) = (JNull, [], [], [], [], JNull, JNull, None) \<and>
   telemetry (onmessage B (envelope ''telemetry'' x) (step B ResetState s)) = x \<and>
   telemetryHistory (onmessage B (envelope ''telemetry'' x) (step B ResetState s)) = [x]"
proof -
  have 1: "sinks (fire Reconnect s) = sinks s"
    by (simp add: fire_def connection_events_sinks)
  have 2: "sinks (run B [WsClose i, Tick d, WsOpen j] s) = sinks s"
    if h: "\<forall>(u, a) \<in> set (timers s). a = ClearNotification \<longrightarrow> now s + d < u"
  proof -
    let ?c = "step B (WsClose i) s"
    have "now ?c = now s" and "set (timers ?c) \<subseteq> set (timers s) \<union> {(u, Reconnect) | u. True}"
      by (auto simp: step_def onclose_def setTimeout_def Let_def)
    with h have "\<forall>(u, a) \<in> set (timers ?c). a = ClearNotification \<longrightarrow> now ?c + d < u"
      by auto
    then have "sinks (tick d ?c) = sinks ?c" by (rule tick_sinks)
    then have "sinks (step B (Tick d) ?c) = sinks s"
      by (simp add: connection_events_sinks) (simp add: step_def)
    then show ?thesis
      by (simp add: run_Cons run_Nil connection_events_sinks)
  qed
  have 3: "sinks (step B ResetState s) = (JNull, [], [], [], [], JNull, JNull, None)"
    by (simp add: step_def resetState_def sinks_def)
  have 4: "telemetry (onmessage B (envelope ''telemetry'' x) (step B ResetState s)) = x"
    "telemetryHistory (onmessage B (envelope ''telemetry'' x) (step B ResetState s)) = [x]"
    by (simp_all add: onmessage_def try_body_def envelope_def dispatch_def step_def
        resetState_def append_bounded_def MAX_HISTORY_def)
  show ?thesis
    using 1 2 3 4 step_streams_nonempty[of e s B] connection_events_sinks(1-3)
    by presburger
qed

theorem reconnect_keeps_sinks_reset_clears_witness:
  "sinks (run (\<lambda>log c x. []) [WsClose 0, Tick 1000, WsOpen 1]
      (run (\<lambda>log c x. []) [Mount, WsOpen 0, WsMessage 0 (envelope ''telemetry'' (JNum 1))] initial_state))
    = (JNum 1, [JNum 1], [], [], [], JNull, JNull, None) \<and>
   telemetryHistory (step (\<lambda>log c x. []) (WsClose 0)
      (run (\<lambda>log c x. []) [Mount, WsOpen 0, WsMessage 0 (envelope ''telemetry'' (JNum 1))] initial_state))
    = [JNum 1]"
proof -
  let ?B = "(\<lambda>log c x. []) :: behaviour"
  let ?s = "run ?B [Mount, WsOpen 0, WsMessage 0 (envelope ''telemetry'' (JNum 1))] initial_state"
  have s: "sinks ?s = (JNum 1, [JNum 1], [], [], [], JNull, JNull, None)" "timers ?s = []"
    by (simp_all add: run_def step_def mount_def connect_def initial_state_def onopen_def
        onmessage_def try_body_def envelope_def dispatch_def append_bounded_def MAX_HISTORY_def
        sinks_def)
  then have h: "\<forall>(u, a) \<in> set (timers ?s). a = ClearNotification \<longrightarrow> now ?s + 1000 < u"
    by simp
  have n: "WsClose 0 \<noteq> ResetState" "telemetryHistory ?s \<noteq> []"
    using s(1) by (simp_all add: sinks_def)
  note t = reconnect_keeps_sinks_reset_clears[of ?B 0 ?s 1 1000 "WsClose 0" "JNull"]
  have a: "sinks (run ?B [WsClose 0, Tick 1000, WsOpen 1] ?s) = sinks ?s"
    using t h by blast
  have b: "sinks (step ?B (WsClose 0) ?s) = sinks ?s"
    using t by blast
  show ?thesis using a b s(1) by (simp add: sinks_def)
qed

subsection \<open>The telemetry slot and the telemetry history\<close>

lemma last_append_bounded: "0 < cap \<Longrightarrow> last (append_bounded cap prev x) = x"
  by (simp add: append_bounded_drop last_drop)

lemma set_append_bounded: "0 < cap \<Longrightarrow> set (append_bounded cap prev x) \<subseteq> insert x (set prev)"
proof -
  assume "0 < cap"
  then have "append_bounded cap prev x = drop (Suc (length prev) - cap) (prev @ [x])"
    by (rule append_bounded_drop)
  moreover have "set (drop (Suc (length prev) - cap) (prev @ [x])) \<subseteq> set (prev @ [x])"
    by (rule set_drop_subset)
  ultimately show ?thesis by auto
qed

lemma dispatch_telemetry:
  "telemetry (fst (dispatch B ty d s)) = (if ty = JStr ''telemetry'' then d else telemetry s)"
proof (cases "ty = JStr ''video_frame''")
  case True
  then show ?thesis using dispatch_video_publisher_only[of s B d]
    by (simp add: publisher_only_def)
next
  case False
  then show ?thesis
    by (simp add: dispatch_def setTimeout_def split: sum.splits)
qed

lemma onmessage_telemetry:
  "telemetry (onmessage B fr s) =
     (case payload_of ''telemetry'' fr of None \<Rightarrow> telemetry s | Some d \<Rightarrow> d)"
  by (rule onmessage_cases[of B fr s]) (simp_all add: dispatch_telemetry)

lemma onmessage_telemetryHistory:
  "telemetryHistory (onmessage B fr s) =
     (case payload_of ''telemetry'' fr of
        None \<Rightarrow> telemetryHistory s
      | Some d \<Rightarrow> append_bounded MAX_HISTORY (telemetryHistory s) d)"
  by (rule onmessage_stream) (rule dispatch_streams)

lemma step_telemetry_cases:
  obtains (same) "telemetry (step B e s) = telemetry s"
      "telemetryHistory (step B e s) = telemetryHistory s"
  | (reset) "e = ResetState" "telemetry (step B e s) = JNull" "telemetryHistory (step B e s) = []"
  | (stored) i fr d where "e = WsMessage i fr" "payload_of ''telemetry'' fr = Some d"
      "telemetry (step B e s) = d"
      "telemetryHistory (step B e s) = append_bounded MAX_HISTORY (telemetryHistory s) d"
proof (cases e)
  case (WsMessage i fr)
  show ?thesis
  proof (cases "i < length (sockets s) \<and> sockets s ! i = OPEN")
    case False
    then have "step B e s = s" using WsMessage by (auto simp: step_def)
    then show ?thesis using same by simp
  next
    case True
    then have st: "step B e s = onmessage B fr s" using WsMessage by (simp add: step_def)
    show ?thesis
    proof (cases "payload_of ''telemetry'' fr")
      case None
      then have "telemetry (step B e s) = telemetry s"
        "telemetryHistory (step B e s) = telemetryHistory s"
        by (simp_all add: st onmessage_telemetry onmessage_telemetryHistory)
      then show ?thesis using same by blast
    next
      case (Some d)
      then have "telemetry (step B e s) = d"
        "telemetryHistory (step B e s) = append_bounded MAX_HISTORY (telemetryHistory s) d"
        by (simp_all add: st onmessage_telemetry onmessage_telemetryHistory)
      then show ?thesis using stored[of i fr d] WsMessage Some by blast
    qed
  qed
next
  case ResetState
  then have "telemetry (step B e s) = JNull" "telemetryHistory (step B e s) = []"
    by (simp_all add: step_def resetState_def)
  then show ?thesis using reset ResetState by blast
next
  case (Tick d)
  then have "telemetry (step B e s) = telemetry s"
    "telemetryHistory (step B e s) = telemetryHistory s"
    using tick_timers_only[of s d] by (simp_all add: step_def timers_only_def)
  then show ?thesis using same by blast
next
  case Mount
  then have "sinks (step B e s) = sinks s" by (simp add: connection_events_sinks)
  then show ?thesis using same by (simp add: sinks_def)
next
  case Unmount
  then have "sinks (step B e s) = sinks s" by (simp add: connection_events_sinks)
  then show ?thesis using same by (simp add: sinks_def)
next
  case (WsOpen i)
  then have "sinks (step B e s) = sinks s" by (simp add: connection_events_sinks)
  then show ?thesis using same by (simp add: sinks_def)
next
  case (WsError i)
  then have "sinks (step B e s) = sinks s" by (simp add: connection_events_sinks)
  then show ?thesis using same by (simp add: sinks_def)
next
  case (WsClose i)
  then have "sinks (step B e s) = sinks s" by (simp add: connection_events_sinks)
  then show ?thesis using same by (simp add: sinks_def)
next
  case (Subscribe c)
  then have "sinks (step B e s) = sinks s" by (simp add: connection_events_sinks)
  then show ?thesis using same by (simp add: sinks_def)
next
  case (Unsubscribe c)
  then have "sinks (step B e s) = sinks s" by (simp add: connection_events_sinks)
  then show ?thesis using same by (simp add: sinks_def)
qed

lemma step_telemetry_linked:
  assumes "telemetryHistory s = [] \<longrightarrow> telemetry s = JNull"
    and "telemetryHistory s \<noteq> [] \<longrightarrow> telemetry s = last (telemetryHistory s)"
  shows "(telemetryHistory (step B e s) = [] \<longrightarrow> telemetry (step B e s) = JNull) \<and>
         (telemetryHistory (step B e s) \<noteq> [] \<longrightarrow>
           telemetry (step B e s) = last (telemetryHistory (step B e s)))"
  using assms
  by (rule_tac step_telemetry_cases[of B e s])
    (simp_all add: last_append_bounded append_bounded_nonempty MAX_HISTORY_def)

lemma step_no_null_in_history:
  assumes "JNull \<notin> set (telemetryHistory s)" and "\<not> null_telemetry e"
  shows "JNull \<notin> set (telemetryHistory (step B e s))"
proof (rule step_telemetry_cases[of B e s])
  fix i fr d
  assume e: "e = WsMessage i fr" and p: "payload_of ''telemetry'' fr = Some d"
    and h: "telemetryHistory (step B e s) = append_bounded MAX_HISTORY (telemetryHistory s) d"
  from assms(2) e p have "d \<noteq> JNull" by (auto simp: null_telemetry_def)
  moreover have "set (append_bounded MAX_HISTORY (telemetryHistory s) d)
       \<subseteq> insert d (set (telemetryHistory s))"
    by (rule set_append_bounded) (simp add: MAX_HISTORY_def)
  ultimately show ?thesis using assms(1) h by auto
qed (use assms in simp_all)

lemma run_telemetry_linked:
  "(telemetryHistory (run B evs initial_state) = [] \<longrightarrow>
      telemetry (run B evs initial_state) = JNull) \<and>
   (telemetryHistory (run B evs initial_state) \<noteq> [] \<longrightarrow>
      telemetry (run B evs initial_state) = last (telemetryHistory (run B evs initial_state)))"
proof (induction evs rule: rev_induct)
  case Nil
  show ?case by (simp add: run_Nil initial_state_def)
next
  case (snoc e evs)
  have "run B (evs @ [e]) initial_state = step B e (run B evs initial_state)"
    by (simp add: run_append run_Cons run_Nil)
  then show ?case
    using step_telemetry_linked[of "run B evs initial_state" B e] snoc.IH by simp
qed

lemma run_no_null_in_history:
  "\<forall>e \<in> set evs. \<not> null_telemetry e \<Longrightarrow>
   JNull \<notin> set (telemetryHistory (run B evs initial_state))"
proof (induction evs rule: rev_induct)
  case Nil
  show ?case by (simp add: run_Nil initial_state_def)
next
  case (snoc e evs)
  have "run B (evs @ [e]) initial_state = step B e (run B evs initial_state)"
    by (simp add: run_append run_Cons run_Nil)
  then show ?case
    using step_no_null_in_history[of "run B evs initial_state" e B] snoc by simp
qed

text \<open>
  Claim C8 as stated fails: the handler stores the body of a telemetry frame without a
  check, so a telemetry frame whose \<^verbatim>\<open>data\<close> is null leaves the slot null while the
  history holds one element.
\<close>

theorem null_telemetry_body_is_stored:
  "telemetry
     (run (\<lambda>log c x. []) [Mount, WsOpen 0, WsMessage 0 (envelope ''telemetry'' JNull)]
        initial_state) = JNull \<and>
   telemetryHistory
     (run (\<lambda>log c x. []) [Mount, WsOpen 0, WsMessage 0 (envelope ''telemetry'' JNull)]
        initial_state) = [JNull]"
  by (simp add: run_def step_def mount_def connect_def initial_state_def onopen_def
      onmessage_def try_body_def envelope_def dispatch_def append_bounded_def MAX_HISTORY_def)

text \<open>
  Claim C8, amended. After any sequence of events from the initial state (frames, resets,
  and every other event of the hook), the telemetry slot is null when the telemetry
  history is empty, and is the last element of the history otherwise; and when no
  telemetry frame of the sequence carried a null body, the slot is null only when the
  history is empty.
\<close>

theorem telemetry_slot_follows_history:
  "(telemetryHistory (run B evs initial_state) = [] \<longrightarrow>
      telemetry (run B evs initial_state) = JNull) \<and>
   (telemetryHistory (run B evs initial_state) \<noteq> [] \<longrightarrow>
      telemetry (run B evs initial_state) = last (telemetryHistory (run B evs initial_state))) \<and>
   ((\<forall>e \<in> set evs. \<not> null_telemetry e) \<longrightarrow>
      (telemetry (run B evs initial_state) = JNull \<longleftrightarrow>
       telemetryHistory (run B evs initial_state) = []))"
proof -
  let ?s = "run B evs initial_state"
  note l = run_telemetry_linked[of B evs]
  have "telemetry ?s = JNull \<longleftrightarrow> telemetryHistory ?s = []"
    if n: "\<forall>e \<in> set evs. \<not> null_telemetry e"
  proof
    assume z: "telemetry ?s = JNull"
    show "telemetryHistory ?s = []"
    proof (rule ccontr)
      assume ne: "telemetryHistory ?s \<noteq> []"
      then have "last (telemetryHistory ?s) = JNull" using l z by simp
      then have "JNull \<in> set (telemetryHistory ?s)" using ne last_in_set by metis
      then show False using run_no_null_in_history[OF n, of B] by simp
    qed
  next
    assume "telemetryHistory ?s = []"
    then show "telemetry ?s = JNull" using l by simp
  qed
  then show ?thesis using l by blast
qed

theorem telemetry_slot_follows_history_witness:
  "telemetryHistory
     (run (\<lambda>log c x. [])
        [Mount, WsOpen 0, WsMessage 0 (envelope ''telemetry'' (JNum 1)), ResetState,
         WsMessage 0 (envelope ''telemetry'' (JNum 2)), WsMessage 0 (envelope ''telemetry'' (JNum 3))]
        initial_state) = [JNum 2, JNum 3] \<and>
   telemetry
     (run (\<lambda>log c x. [])
        [Mount, WsOpen 0, WsMessage 0 (envelope ''telemetry'' (JNum 1)), ResetState,
         WsMessage 0 (envelope ''telemetry'' (JNum 2)), WsMessage 0 (envelope ''telemetry'' (JNum 3))]
        initial_state) = JNum 3"
proof -
  let ?B = "(\<lambda>log c x. []) :: behaviour"
  let ?evs = "[Mount, WsOpen 0, WsMessage 0 (envelope ''telemetry'' (JNum 1)), ResetState,
         WsMessage 0 (envelope ''telemetry'' (JNum 2)), WsMessage 0 (envelope ''telemetry'' (JNum 3))]"
  have n: "\<forall>e \<in> set ?evs. \<not> null_telemetry e"
    by (simp add: null_telemetry_def envelope_def)
  have h: "telemetryHistory (run ?B ?evs initial_state) = [JNum 2, JNum 3]"
    by (simp add: run_def step_def mount_def connect_def initial_state_def onopen_def
        onmessage_def try_body_def envelope_def dispatch_def append_bounded_def MAX_HISTORY_def
        resetState_def)
  then have "telemetryHistory (run ?B ?evs initial_state) \<noteq> []" by simp
  then have "telemetry (run ?B ?evs initial_state) = last (telemetryHistory (run ?B ?evs initial_state))"
    using telemetry_slot_follows_history[of ?B ?evs] n by blast
  then show ?thesis using h by simp
qed

subsection \<open>What a reset leaves alone\<close>

text \<open>The publisher reads the subscriber set and the call log, and nothing else.\<close>

lemma dispatch_non_sinks:
  assumes "non_sinks s1 = non_sinks s2"
  shows "non_sinks (fst (dispatch B ty d s1)) = non_sinks (fst (dispatch B ty d s2))"
proof (cases "ty = JStr ''video_frame''")
  case True
  have f: "frameListenersRef s1 = frameListenersRef s2" "delivered s1 = delivered s2"
    using assms by (simp_all add: non_sinks_def)
  show ?thesis
  proof (cases "walk B d 0 (frameListenersRef s2) (delivered s2)")
    case None
    then show ?thesis using True f assms
      by (simp add: fst_dispatch_video forEach_cb_def non_sinks_def)
  next
    case (Some r)
    obtain L D w where "r = (L, D, w)" by (cases r)
    then show ?thesis using Some True f assms
      by (simp add: fst_dispatch_video forEach_cb_def non_sinks_def)
  qed
next
  case False
  then show ?thesis using assms
    by (simp add: dispatch_def setTimeout_def non_sinks_def split: sum.splits)
qed

lemma onmessage_non_sinks:
  assumes "non_sinks s1 = non_sinks s2"
  shows "non_sinks (onmessage B fr s1) = non_sinks (onmessage B fr s2)"
proof (cases fr)
  case Unparsable
  then show ?thesis using assms by (simp add: onmessage_def try_body_def)
next
  case (Parsed msg)
  then show ?thesis using assms dispatch_non_sinks[OF assms]
    by (simp add: onmessage_def try_body_def split: sum.splits)
qed

lemma fold_fire_non_sinks:
  "non_sinks s1 = non_sinks s2 \<Longrightarrow> non_sinks (fold fire as s1) = non_sinks (fold fire as s2)"
proof (induction as arbitrary: s1 s2)
  case Nil
  then show ?case by simp
next
  case (Cons a as)
  have "non_sinks (fire a s1) = non_sinks (fire a s2)"
    using Cons.prems by (cases a) (simp_all add: fire_def connect_def non_sinks_def)
  from Cons.IH[OF this] show ?case by simp
qed

lemma step_non_sinks:
  assumes "non_sinks s1 = non_sinks s2"
  shows "non_sinks (step B e s1) = non_sinks (step B e s2)"
proof (cases e)
  case (WsMessage i fr)
  have "sockets s1 = sockets s2" using assms by (simp add: non_sinks_def)
  then show ?thesis using WsMessage assms onmessage_non_sinks[OF assms]
    by (simp add: step_def)
next
  case (Tick d)
  let ?u1 = "s1\<lparr>now := now s1 + d, timers := filter (\<lambda>(u, a). \<not> u \<le> now s1 + d) (timers s1)\<rparr>"
  let ?u2 = "s2\<lparr>now := now s2 + d, timers := filter (\<lambda>(u, a). \<not> u \<le> now s2 + d) (timers s2)\<rparr>"
  have t: "timers s1 = timers s2" "now s1 = now s2" using assms by (simp_all add: non_sinks_def)
  have "non_sinks ?u1 = non_sinks ?u2" using assms by (simp add: non_sinks_def)
  from fold_fire_non_sinks[OF this] show ?thesis
    using Tick t by (simp add: step_def tick_def Let_def)
next
  case Unmount
  then show ?thesis using assms
    by (auto simp: step_def non_sinks_def unmount_def ws_close_def Let_def split: option.splits)
qed (use assms in \<open>simp_all add: step_def non_sinks_def mount_def unmount_def connect_def
      ws_close_def onopen_def onerror_def onclose_def setTimeout_def Let_def
      subscribeToFrames_def unsubscribe_def resetState_def split: option.splits\<close>)

lemma run_non_sinks:
  "non_sinks s1 = non_sinks s2 \<Longrightarrow> non_sinks (run B evs s1) = non_sinks (run B evs s2)"
proof (induction evs arbitrary: s1 s2)
  case Nil
  then show ?case by (simp add: run_Nil)
next
  case (Cons e evs)
  from Cons.IH[OF step_non_sinks[OF Cons.prems, of B e]] show ?case by (simp add: run_Cons)
qed

text \<open>
  Claim C10. An explicit reset changes the sinks and nothing else: the connected flag,
  \<^verbatim>\<open>wsRef\<close> and the sockets, the retry counter, the mounted flag, the subscriber set, the
  pending timers, the clock and the call log are what they were. Whatever happens
  afterwards, these are what they would have been without the reset: a later close
  schedules the same reconnection, and a later video frame is handed to the same
  callbacks.
\<close>

theorem reset_changes_only_sinks:
  "non_sinks (step B ResetState s) = non_sinks s \<and>
   non_sinks (run B evs (step B ResetState s)) = non_sinks (run B evs s) \<and>
   timers (step B (WsClose i) (resetState s)) = timers (step B (WsClose i) s) \<and>
   retriesRef (step B (WsClose i) (resetState s)) = retriesRef (step B (WsClose i) s) \<and>
   delivered (onmessage B (envelope ''video_frame'' d) (resetState s)) =
     delivered (onmessage B (envelope ''video_frame'' d) s) \<and>
   frameListenersRef (onmessage B (envelope ''video_frame'' d) (resetState s)) =
     frameListenersRef (onmessage B (envelope ''video_frame'' d) s)"
proof -
  have r: "non_sinks (resetState s) = non_sinks s"
    by (simp add: non_sinks_def resetState_def)
  have 1: "non_sinks (step B ResetState s) = non_sinks s"
    using r by (simp add: step_def)
  have 2: "non_sinks (run B evs (step B ResetState s)) = non_sinks (run B evs s)"
    using 1 by (rule run_non_sinks)
  have 3: "non_sinks (step B (WsClose i) (resetState s)) = non_sinks (step B (WsClose i) s)"
    using r by (rule step_non_sinks)
  have 4: "non_sinks (onmessage B (envelope ''video_frame'' d) (resetState s)) =
      non_sinks (onmessage B (envelope ''video_frame'' d) s)"
    using r by (rule onmessage_non_sinks)
  show ?thesis using 1 2 3 4 by (simp add: non_sinks_def)
qed

theorem reset_changes_only_sinks_witness:
  "delivered (onmessage (\<lambda>log c x. []) (envelope ''video_frame'' (JObj [(''frame'', JStr ''img'')]))
      (resetState (subscribeToFrames 7 (mount initial_state)))) = [(7, JStr ''img'')] \<and>
   retriesRef (resetState (step (\<lambda>log c x. []) (WsClose 0) (mount initial_state))) = 1"
proof -
  let ?B = "(\<lambda>log c x. []) :: behaviour"
  let ?s = "subscribeToFrames 7 (mount initial_state)"
  let ?s' = "step ?B (WsClose 0) (mount initial_state)"
  have a: "delivered (onmessage ?B (envelope ''video_frame'' (JObj [(''frame'', JStr ''img'')])) ?s)
      = [(7, JStr ''img'')]"
    by (simp add: onmessage_def try_body_def envelope_def dispatch_def forEach_cb_def
        walk.simps subscribeToFrames_def set_add_def mount_def connect_def initial_state_def)
  have b: "retriesRef ?s' = 1"
    by (simp add: step_def onclose_def mount_def connect_def initial_state_def setTimeout_def
        Let_def increment_def exact_limit_def)
  have "non_sinks (step ?B ResetState ?s') = non_sinks ?s'"
    using reset_changes_only_sinks[of ?B ?s' "[]" 0 JNull] by blast
  then have c: "retriesRef (resetState ?s') = retriesRef ?s'"
    by (simp add: non_sinks_def step_def)
  show ?thesis
    using reset_changes_only_sinks[of ?B ?s "[]" 0 "JObj [(''frame'', JStr ''img'')]"] a b c
    by simp
qed

subsection \<open>The subscriber set\<close>

lemma log_of_snoc:
  "log_of c (D @ [(a, x)]) = (if a = c then log_of c D @ [x] else log_of c D)"
  by (simp add: log_of_def)

lemma members_simps:
  "members [] = []"
  "members (None # L) = members L"
  "members (Some x # L) = x # members L"
  "members (L @ L') = members L @ members L'"
  by (simp_all add: members_def)

lemma set_members: "set (members L) = {x. Some x \<in> set L}"
proof (induction L)
  case Nil
  show ?case by (simp add: members_simps)
next
  case (Cons e L)
  then show ?case by (cases e) (auto simp: members_simps)
qed

lemma members_set_delete: "members (set_delete a L) = removeAll a (members L)"
proof (induction L)
  case Nil
  show ?case by (simp add: members_simps set_delete_def)
next
  case (Cons e L)
  then show ?case by (cases e) (auto simp: members_simps set_delete_def)
qed

lemma members_set_add:
  "members (set_add a L) = (if Some a \<in> set L then members L else members L @ [a])"
  by (simp add: set_add_def members_simps)

lemma set_delete_distinct: "distinct (members L) \<Longrightarrow> distinct (members (set_delete a L))"
  by (simp add: members_set_delete distinct_removeAll)

lemma set_add_distinct: "distinct (members L) \<Longrightarrow> distinct (members (set_add a L))"
  by (simp add: members_set_add set_members)

lemma length_set_delete: "length (set_delete a L) = length L"
  by (simp add: set_delete_def)

lemma length_set_add: "length L \<le> length (set_add a L)"
  by (simp add: set_add_def)

lemma nth_set_delete:
  "j < length L \<Longrightarrow> set_delete a L ! j = (if L ! j = Some a then None else L ! j)"
  by (simp add: set_delete_def)

lemma nth_set_add: "j < length L \<Longrightarrow> set_add a L ! j = L ! j"
  by (simp add: set_add_def nth_append)

lemma set_delete_not_member: "Some c \<notin> set (set_delete c L)"
  by (auto simp: set_delete_def)

text \<open>In a Set without duplicates, the value of an entry is in no later entry.\<close>

lemma distinct_members_not_ahead:
  assumes "distinct (members L)" and "i < length L" and "L ! i = Some c"
  shows "Some c \<notin> set (drop (Suc i) L)"
proof -
  have "L = take i L @ Some c # drop (Suc i) L"
    using assms(2,3) id_take_nth_drop[of i L] by simp
  then have "members L = members (take i L) @ c # members (drop (Suc i) L)"
    using members_simps(3,4) by metis
  then have "c \<notin> set (members (drop (Suc i) L))" using assms(1) by simp
  then show ?thesis by (simp add: set_members)
qed

subsection \<open>The operations of a callback\<close>

lemma run_ops_length_le: "length L \<le> length (fst (run_ops ops L))"
proof (induction ops L rule: run_ops.induct)
  case (2 c ops L)
  then show ?case by (simp add: length_set_delete)
next
  case (3 c ops L)
  then show ?case using length_set_add[of L c] by simp
qed simp_all

lemma run_ops_length:
  "\<forall>a. CallSubscribe a \<notin> set ops \<Longrightarrow> length (fst (run_ops ops L)) = length L"
  by (induction ops L rule: run_ops.induct) (auto simp: length_set_delete)

lemma run_ops_nth_Some:
  "j < length L \<Longrightarrow> fst (run_ops ops L) ! j = Some b \<Longrightarrow> L ! j = Some b"
proof (induction ops L rule: run_ops.induct)
  case (2 c ops L)
  then have "set_delete c L ! j = Some b" by (simp add: length_set_delete)
  then show ?case using 2(2) by (simp add: nth_set_delete split: if_splits)
next
  case (3 c ops L)
  have "j < length (set_add c L)" using 3(2) length_set_add[of L c] by simp
  then have "set_add c L ! j = Some b" using 3 by simp
  then show ?case using 3(2) by (simp add: nth_set_add)
qed simp_all

lemma run_ops_nth_kept:
  "CallToken c \<notin> set ops \<Longrightarrow> p < length L \<Longrightarrow> L ! p = Some c \<Longrightarrow>
   fst (run_ops ops L) ! p = Some c"
proof (induction ops L rule: run_ops.induct)
  case (2 a ops L)
  then have "a \<noteq> c" by auto
  then have "set_delete a L ! p = Some c" using 2(3,4) by (simp add: nth_set_delete)
  then show ?case using 2 by (simp add: length_set_delete)
next
  case (3 a ops L)
  have "p < length (set_add a L)" using 3(3) length_set_add[of L a] by simp
  moreover have "set_add a L ! p = Some c" using 3(3,4) by (simp add: nth_set_add)
  ultimately show ?case using 3 by simp
qed simp_all

lemma run_ops_not_added:
  "CallSubscribe c \<notin> set ops \<Longrightarrow> Some c \<notin> set (drop k L) \<Longrightarrow>
   Some c \<notin> set (drop k (fst (run_ops ops L)))"
proof (induction ops L rule: run_ops.induct)
  case (2 a ops L)
  have "Some c \<notin> set (drop k (set_delete a L))"
    using 2(3) by (auto simp: set_delete_def drop_map)
  then show ?case using 2 by simp
next
  case (3 a ops L)
  have "a \<noteq> c" using 3(2) by auto
  then have "Some c \<notin> set (drop k (set_add a L))"
    using 3(3) by (auto simp: set_add_def dest: in_set_dropD)
  then show ?case using 3 by simp
qed simp_all

lemma run_ops_no_throw: "Throw \<notin> set ops \<Longrightarrow> \<not> snd (run_ops ops L)"
  by (induction ops L rule: run_ops.induct) simp_all

text \<open>
  When the operations of a callback have all run, and the token of c is among them but
  no subscription of c, then c is not in the Set.
\<close>

lemma run_ops_token:
  "CallToken c \<in> set ops \<Longrightarrow> CallSubscribe c \<notin> set ops \<Longrightarrow> \<not> snd (run_ops ops L) \<Longrightarrow>
   Some c \<notin> set (fst (run_ops ops L))"
proof (induction ops L rule: run_ops.induct)
  case (2 a ops L)
  show ?case
  proof (cases "a = c")
    case True
    have "Some c \<notin> set (drop 0 (set_delete c L))" by (simp add: set_delete_not_member)
    then have "Some c \<notin> set (drop 0 (fst (run_ops ops (set_delete c L))))"
      using 2(3) by (intro run_ops_not_added) simp_all
    then show ?thesis using True by simp
  next
    case False
    then show ?thesis using 2 by simp
  qed
qed simp_all

lemma run_ops_distinct: "distinct (members L) \<Longrightarrow> distinct (members (fst (run_ops ops L)))"
  by (induction ops L rule: run_ops.induct) (simp_all add: set_delete_distinct set_add_distinct)

subsection \<open>The walk over the subscribers\<close>

text \<open>When no callback subscribes a callback, the Set does not grow and the walk ends.\<close>

lemma walk_returns:
  assumes "\<forall>D c x a. CallSubscribe a \<notin> set (B D c x)"
  shows "\<exists>r. walk B vf i L D = Some r"
proof (induction "length L - i" arbitrary: i L D rule: less_induct)
  case less
  show ?case
  proof (cases "i < length L")
    case False
    then show ?thesis by (auto simp: walk_end)
  next
    case True
    show ?thesis
    proof (cases "L ! i")
      case None
      have "\<exists>r. walk B vf (i + 1) L D = Some r"
        using True by (intro less) simp
      then show ?thesis using True None by (simp add: walk_hole)
    next
      case (Some c)
      show ?thesis
      proof (cases "get_prop vf ''frame''")
        case (Inl e)
        then show ?thesis using True Some by (auto simp: walk_frame_error)
      next
        case (Inr x)
        obtain L' w where r: "run_ops (B D c x) L = (L', w)"
          by (cases "run_ops (B D c x) L")
        have "length L' = length L"
          using run_ops_length[of "B D c x" L] assms r by simp
        then have "\<exists>r. walk B vf (i + 1) L' (D @ [(c, x)]) = Some r"
          using True by (intro less) simp
        then show ?thesis using True Some Inr r by (auto simp: walk_call)
      qed
    qed
  qed
qed

text \<open>
  A callback that is in no entry from i on, and that no callback subscribes, is not
  called by the walk from i.
\<close>

lemma walk_not_ahead:
  "walk B vf i L D = Some r \<Longrightarrow>
   (\<forall>D a y. CallSubscribe c \<notin> set (B D a y)) \<longrightarrow> Some c \<notin> set (drop i L) \<longrightarrow>
   log_of c (fst (snd r)) = log_of c D"
proof (induction B vf i L D r rule: walk.raw_induct[rotated 1, consumes 1])
  case (1 f B vf i L D r)
  note IH = 1(1) and body = 1(2)
  show ?case
  proof (intro impI)
    assume nosub: "\<forall>D a y. CallSubscribe c \<notin> set (B D a y)"
      and ahead: "Some c \<notin> set (drop i L)"
    have next_ahead: "Some c \<notin> set (drop (i + 1) L)"
      using ahead set_drop_subset_set_drop[of i "i + 1" L] by auto
    show "log_of c (fst (snd r)) = log_of c D"
    proof (cases "i < length L")
      case False
      then have "r = (L, D, False)" using body by simp
      then show ?thesis by simp
    next
      case True
      then have here: "L ! i \<noteq> Some c"
        using ahead by (metis Cons_nth_drop_Suc list.set_intros(1))
      show ?thesis
      proof (cases "L ! i")
        case None
        then have "f B vf (i + 1) L D = Some r" using body True by simp
        from IH[OF this] nosub next_ahead show ?thesis by simp
      next
        case (Some a)
        then have ac: "a \<noteq> c" using here by simp
        show ?thesis
        proof (cases "get_prop vf ''frame''")
          case (Inl e)
          then have "r = (L, D, True)" using body True Some by simp
          then show ?thesis by simp
        next
          case (Inr x)
          obtain L' w where ro: "run_ops (B D a x) L = (L', w)"
            by (cases "run_ops (B D a x) L")
          show ?thesis
          proof (cases w)
            case True
            then have "r = (L', D @ [(a, x)], True)"
              using body \<open>i < length L\<close> Some Inr ro by simp
            then show ?thesis using ac by (simp add: log_of_snoc)
          next
            case False
            then have b: "f B vf (i + 1) L' (D @ [(a, x)]) = Some r"
              using body \<open>i < length L\<close> Some Inr ro by simp
            have "Some c \<notin> set (drop (i + 1) (fst (run_ops (B D a x) L)))"
              using nosub next_ahead by (intro run_ops_not_added) simp_all
            then have "Some c \<notin> set (drop (i + 1) L')" using ro by simp
            with IH[OF b] nosub show ?thesis using ac by (simp add: log_of_snoc)
          qed
        qed
      qed
    qed
  qed
qed

text \<open>A callback that is not in the Set, and that no callback subscribes, is not added.\<close>

lemma walk_not_added:
  "walk B vf i L D = Some r \<Longrightarrow>
   (\<forall>D a y. CallSubscribe c \<notin> set (B D a y)) \<longrightarrow> Some c \<notin> set L \<longrightarrow>
   Some c \<notin> set (fst r)"
proof (induction B vf i L D r rule: walk.raw_induct[rotated 1, consumes 1])
  case (1 f B vf i L D r)
  note IH = 1(1) and body = 1(2)
  show ?case
  proof (intro impI)
    assume nosub: "\<forall>D a y. CallSubscribe c \<notin> set (B D a y)"
      and out: "Some c \<notin> set L"
    show "Some c \<notin> set (fst r)"
    proof (cases "i < length L")
      case False
      then have "r = (L, D, False)" using body by simp
      then show ?thesis using out by simp
    next
      case True
      show ?thesis
      proof (cases "L ! i")
        case None
        then have "f B vf (i + 1) L D = Some r" using body True by simp
        from IH[OF this] nosub out show ?thesis by simp
      next
        case (Some a)
        show ?thesis
        proof (cases "get_prop vf ''frame''")
          case (Inl e)
          then have "r = (L, D, True)" using body True Some by simp
          then show ?thesis using out by simp
        next
          case (Inr x)
          obtain L' w where ro: "run_ops (B D a x) L = (L', w)"
            by (cases "run_ops (B D a x) L")
          have "Some c \<notin> set (drop 0 (fst (run_ops (B D a x) L)))"
            using nosub out by (intro run_ops_not_added) simp_all
          then have out': "Some c \<notin> set L'" using ro by simp
          show ?thesis
          proof (cases w)
            case True
            then have "r = (L', D @ [(a, x)], True)"
              using body \<open>i < length L\<close> Some Inr ro by simp
            then show ?thesis using out' by simp
          next
            case False
            then have b: "f B vf (i + 1) L' (D @ [(a, x)]) = Some r"
              using body \<open>i < length L\<close> Some Inr ro by simp
            from IH[OF b] nosub out' show ?thesis by simp
          qed
        qed
      qed
    qed
  qed
qed

text \<open>The walk keeps the Set free of duplicates.\<close>

lemma walk_distinct:
  "walk B vf i L D = Some r \<Longrightarrow> distinct (members L) \<longrightarrow> distinct (members (fst r))"
proof (induction B vf i L D r rule: walk.raw_induct[rotated 1, consumes 1])
  case (1 f B vf i L D r)
  note IH = 1(1) and body = 1(2)
  show ?case
  proof (intro impI)
    assume d: "distinct (members L)"
    show "distinct (members (fst r))"
    proof (cases "i < length L")
      case False
      then have "r = (L, D, False)" using body by simp
      then show ?thesis using d by simp
    next
      case True
      show ?thesis
      proof (cases "L ! i")
        case None
        then have "f B vf (i + 1) L D = Some r" using body True by simp
        from IH[OF this] d show ?thesis by simp
      next
        case (Some a)
        show ?thesis
        proof (cases "get_prop vf ''frame''")
          case (Inl e)
          then have "r = (L, D, True)" using body True Some by simp
          then show ?thesis using d by simp
        next
          case (Inr x)
          obtain L' w where ro: "run_ops (B D a x) L = (L', w)"
            by (cases "run_ops (B D a x) L")
          have d': "distinct (members L')"
            using run_ops_distinct[OF d, of "B D a x"] ro by simp
          show ?thesis
          proof (cases w)
            case True
            then have "r = (L', D @ [(a, x)], True)"
              using body \<open>i < length L\<close> Some Inr ro by simp
            then show ?thesis using d' by simp
          next
            case False
            then have b: "f B vf (i + 1) L' (D @ [(a, x)]) = Some r"
              using body \<open>i < length L\<close> Some Inr ro by simp
            from IH[OF b] d' show ?thesis by simp
          qed
        qed
      qed
    qed
  qed
qed

text \<open>
  A callback that no callback subscribes during the walk is called once at most: after
  its entry has been visited it is in no later entry.
\<close>

lemma walk_at_most_once:
  "walk B vf i L D = Some r \<Longrightarrow>
   walk B vf i L D = Some r \<longrightarrow>
   (\<forall>D a y. CallSubscribe c \<notin> set (B D a y)) \<longrightarrow> distinct (members L) \<longrightarrow>
   log_of c (fst (snd r)) = log_of c D \<or>
   (\<exists>x. get_prop vf ''frame'' = Inr x \<and> log_of c (fst (snd r)) = log_of c D @ [x])"
proof (induction B vf i L D r rule: walk.raw_induct[rotated 1, consumes 1])
  case (1 f B vf i L D r)
  note IH = 1(1) and body = 1(2)
  show ?case
  proof (intro impI)
    assume wk: "walk B vf i L D = Some r"
      and nosub: "\<forall>D a y. CallSubscribe c \<notin> set (B D a y)"
      and d: "distinct (members L)"
    show "log_of c (fst (snd r)) = log_of c D \<or>
       (\<exists>x. get_prop vf ''frame'' = Inr x \<and> log_of c (fst (snd r)) = log_of c D @ [x])"
    proof (cases "i < length L")
      case False
      then have "r = (L, D, False)" using body by simp
      then show ?thesis by simp
    next
      case True
      show ?thesis
      proof (cases "L ! i")
        case None
        then have "f B vf (i + 1) L D = Some r" using body True by simp
        moreover have "walk B vf (i + 1) L D = Some r" using wk True None by (simp add: walk_hole)
        ultimately show ?thesis using IH nosub d by blast
      next
        case (Some a)
        show ?thesis
        proof (cases "get_prop vf ''frame''")
          case (Inl e)
          then have "r = (L, D, True)" using body True Some by simp
          then show ?thesis by simp
        next
          case (Inr x)
          obtain L' w where ro: "run_ops (B D a x) L = (L', w)"
            by (cases "run_ops (B D a x) L")
          have d': "distinct (members L')"
            using run_ops_distinct[OF d, of "B D a x"] ro by simp
          show ?thesis
          proof (cases w)
            case True
            then have "r = (L', D @ [(a, x)], True)"
              using body \<open>i < length L\<close> Some Inr ro by simp
            then show ?thesis using Inr by (simp add: log_of_snoc)
          next
            case False
            then have b: "f B vf (i + 1) L' (D @ [(a, x)]) = Some r"
              using body \<open>i < length L\<close> Some Inr ro by simp
            have wk': "walk B vf (i + 1) L' (D @ [(a, x)]) = Some r"
              using wk \<open>i < length L\<close> Some Inr ro False by (simp add: walk_call)
            show ?thesis
            proof (cases "a = c")
              case True
              have "Some c \<notin> set (drop (Suc i) L)"
                using d \<open>i < length L\<close> Some True by (intro distinct_members_not_ahead) simp_all
              then have "Some c \<notin> set (drop (Suc i) (fst (run_ops (B D a x) L)))"
                using nosub by (intro run_ops_not_added) simp_all
              then have "Some c \<notin> set (drop (i + 1) L')" using ro by simp
              then have "log_of c (fst (snd r)) = log_of c (D @ [(a, x)])"
                using walk_not_ahead[OF wk', of c] nosub by simp
              then show ?thesis using True Inr by (simp add: log_of_snoc)
            next
              case False
              have "log_of c (fst (snd r)) = log_of c (D @ [(a, x)]) \<or>
                 (\<exists>x'. get_prop vf ''frame'' = Inr x' \<and>
                    log_of c (fst (snd r)) = log_of c (D @ [(a, x)]) @ [x'])"
                using IH[OF b] wk' nosub d' by blast
              then show ?thesis using False by (simp add: log_of_snoc)
            qed
          qed
        qed
      qed
    qed
  qed
qed

text \<open>
  A callback c whose entry is at position p, and that no callback subscribes during the
  walk, is called exactly once when no callback in an entry between i and p throws or
  calls the token of c.
\<close>

lemma walk_exactly_once:
  "walk B vf i L D = Some r \<Longrightarrow>
   walk B vf i L D = Some r \<longrightarrow> get_prop vf ''frame'' = Inr x \<longrightarrow>
   (\<forall>D a y. CallSubscribe c \<notin> set (B D a y)) \<longrightarrow>
   i \<le> p \<longrightarrow> p < length L \<longrightarrow> L ! p = Some c \<longrightarrow> Some c \<notin> set (drop (Suc p) L) \<longrightarrow>
   (\<forall>j a. i \<le> j \<and> j < p \<and> L ! j = Some a \<longrightarrow>
      a \<noteq> c \<and> (\<forall>D y. Throw \<notin> set (B D a y) \<and> CallToken c \<notin> set (B D a y))) \<longrightarrow>
   log_of c (fst (snd r)) = log_of c D @ [x]"
proof (induction B vf i L D r rule: walk.raw_induct[rotated 1, consumes 1])
  case (1 f B vf i L D r)
  note IH = 1(1) and body = 1(2)
  show ?case
  proof (intro impI)
    assume wk: "walk B vf i L D = Some r"
      and fr: "get_prop vf ''frame'' = Inr x"
      and nosub: "\<forall>D a y. CallSubscribe c \<notin> set (B D a y)"
      and ip: "i \<le> p" and pl: "p < length L" and at: "L ! p = Some c"
      and after: "Some c \<notin> set (drop (Suc p) L)"
      and before: "\<forall>j a. i \<le> j \<and> j < p \<and> L ! j = Some a \<longrightarrow>
        a \<noteq> c \<and> (\<forall>D y. Throw \<notin> set (B D a y) \<and> CallToken c \<notin> set (B D a y))"
    have il: "i < length L" using ip pl by simp
    show "log_of c (fst (snd r)) = log_of c D @ [x]"
    proof (cases "L ! i")
      case None
      then have b: "f B vf (i + 1) L D = Some r" using body il by simp
      have wk': "walk B vf (i + 1) L D = Some r" using wk il None by (simp add: walk_hole)
      have "i \<noteq> p" using None at by auto
      then have ip': "i + 1 \<le> p" using ip by simp
      have before': "\<forall>j a. i + 1 \<le> j \<and> j < p \<and> L ! j = Some a \<longrightarrow>
        a \<noteq> c \<and> (\<forall>D y. Throw \<notin> set (B D a y) \<and> CallToken c \<notin> set (B D a y))"
      proof (intro allI impI)
        fix j a
        assume "i + 1 \<le> j \<and> j < p \<and> L ! j = Some a"
        then have "i \<le> j \<and> j < p \<and> L ! j = Some a" by simp
        with before show "a \<noteq> c \<and> (\<forall>D y. Throw \<notin> set (B D a y) \<and> CallToken c \<notin> set (B D a y))"
          by blast
      qed
      from IH[OF b] wk' fr nosub ip' pl at after before' show ?thesis by blast
    next
      case (Some a)
      obtain L' w where ro: "run_ops (B D a x) L = (L', w)"
        by (cases "run_ops (B D a x) L")
      have after': "Some c \<notin> set (drop (Suc p) L')"
      proof -
        have "Some c \<notin> set (drop (Suc p) (fst (run_ops (B D a x) L)))"
          using nosub after by (intro run_ops_not_added) simp_all
        then show ?thesis using ro by simp
      qed
      show ?thesis
      proof (cases "i = p")
        case True
        then have ac: "a = c" using Some at by simp
        show ?thesis
        proof (cases w)
          case True
          then have "r = (L', D @ [(a, x)], True)" using body il Some fr ro by simp
          then show ?thesis using ac by (simp add: log_of_snoc)
        next
          case False
          then have wk': "walk B vf (i + 1) L' (D @ [(a, x)]) = Some r"
            using wk il Some fr ro by (simp add: walk_call)
          have "Some c \<notin> set (drop (i + 1) L')" using after' \<open>i = p\<close> by simp
          then have "log_of c (fst (snd r)) = log_of c (D @ [(a, x)])"
            using walk_not_ahead[OF wk', of c] nosub by simp
          then show ?thesis using ac by (simp add: log_of_snoc)
        qed
      next
        case False
        then have ip': "i + 1 \<le> p" and lt: "i < p" using ip by simp_all
        have good: "a \<noteq> c" "\<forall>D y. Throw \<notin> set (B D a y) \<and> CallToken c \<notin> set (B D a y)"
          using before ip lt Some by blast+
        have "\<not> snd (run_ops (B D a x) L)" using good(2) by (intro run_ops_no_throw) simp
        then have nw: "\<not> w" using ro by simp
        then have b: "f B vf (i + 1) L' (D @ [(a, x)]) = Some r"
          using body il Some fr ro by simp
        have wk': "walk B vf (i + 1) L' (D @ [(a, x)]) = Some r"
          using wk il Some fr ro nw by (simp add: walk_call)
        have pl': "p < length L'"
          using run_ops_length_le[of L "B D a x"] ro pl by simp
        have at': "L' ! p = Some c"
          using run_ops_nth_kept[of c "B D a x" p L] good(2) pl at ro by simp
        have before': "\<forall>j b. i + 1 \<le> j \<and> j < p \<and> L' ! j = Some b \<longrightarrow>
          b \<noteq> c \<and> (\<forall>D y. Throw \<notin> set (B D b y) \<and> CallToken c \<notin> set (B D b y))"
        proof (intro allI impI)
          fix j b
          assume j: "i + 1 \<le> j \<and> j < p \<and> L' ! j = Some b"
          then have "j < length L" using pl by simp
          then have "L ! j = Some b"
            using run_ops_nth_Some[of j L "B D a x" b] ro j by simp
          moreover have "i \<le> j \<and> j < p" using j by simp
          ultimately show "b \<noteq> c \<and> (\<forall>D y. Throw \<notin> set (B D b y) \<and> CallToken c \<notin> set (B D b y))"
            using before by blast
        qed
        have "log_of c (fst (snd r)) = log_of c (D @ [(a, x)]) @ [x]"
          using IH[OF b] wk' fr nosub ip' pl' at' after' before' by blast
        then show ?thesis using good(1) by (simp add: log_of_snoc)
      qed
    qed
  qed
qed

text \<open>The first entry that holds c, and the entries before it.\<close>

lemma first_entry:
  assumes "Some c \<in> set L"
  obtains p where "p < length L" "L ! p = Some c"
    "\<And>j. j < p \<Longrightarrow> L ! j \<in> set (takeWhile (\<lambda>e. e \<noteq> Some c) L) \<and> L ! j \<noteq> Some c"
proof -
  let ?p = "length (takeWhile (\<lambda>e. e \<noteq> Some c) L)"
  have "takeWhile (\<lambda>e. e \<noteq> Some c) L \<noteq> L"
    using assms by simp
  then have 1: "?p < length L"
    using length_takeWhile_le[of "\<lambda>e. e \<noteq> Some c" L]
    by (metis takeWhile_eq_take take_all_iff linorder_not_less)
  then have 2: "L ! ?p = Some c"
    using nth_length_takeWhile[of "\<lambda>e. e \<noteq> Some c" L] by simp
  have 3: "L ! j \<in> set (takeWhile (\<lambda>e. e \<noteq> Some c) L) \<and> L ! j \<noteq> Some c" if "j < ?p" for j
  proof -
    have "takeWhile (\<lambda>e. e \<noteq> Some c) L ! j = L ! j" using that by (rule takeWhile_nth)
    then have "L ! j \<in> set (takeWhile (\<lambda>e. e \<noteq> Some c) L)"
      using that nth_mem[of j "takeWhile (\<lambda>e. e \<noteq> Some c) L"] by simp
    then show ?thesis using set_takeWhileD by fastforce
  qed
  show ?thesis using that[of ?p] 1 2 3 by blast
qed

lemma walk_calls_subscriber_once:
  assumes "walk B vf 0 L D = Some r" and "get_prop vf ''frame'' = Inr x"
    and "\<forall>D a y. CallSubscribe c \<notin> set (B D a y)"
    and "distinct (members L)" and "Some c \<in> set L"
    and "\<forall>a. Some a \<in> set (takeWhile (\<lambda>e. e \<noteq> Some c) L) \<longrightarrow>
           (\<forall>D y. Throw \<notin> set (B D a y) \<and> CallToken c \<notin> set (B D a y))"
  shows "log_of c (fst (snd r)) = log_of c D @ [x]"
proof -
  obtain p where p: "p < length L" "L ! p = Some c"
    "\<And>j. j < p \<Longrightarrow> L ! j \<in> set (takeWhile (\<lambda>e. e \<noteq> Some c) L) \<and> L ! j \<noteq> Some c"
    using first_entry[OF assms(5)] by blast
  have after: "Some c \<notin> set (drop (Suc p) L)"
    using assms(4) p(1,2) by (rule distinct_members_not_ahead)
  have before: "\<forall>j a. 0 \<le> j \<and> j < p \<and> L ! j = Some a \<longrightarrow>
      a \<noteq> c \<and> (\<forall>D y. Throw \<notin> set (B D a y) \<and> CallToken c \<notin> set (B D a y))"
  proof (intro allI impI)
    fix j a
    assume j: "0 \<le> j \<and> j < p \<and> L ! j = Some a"
    then have "Some a \<in> set (takeWhile (\<lambda>e. e \<noteq> Some c) L)" "Some a \<noteq> Some c"
      using p(3)[of j] by auto
    then show "a \<noteq> c \<and> (\<forall>D y. Throw \<notin> set (B D a y) \<and> CallToken c \<notin> set (B D a y))"
      using assms(6) by auto
  qed
  show ?thesis
    using walk_exactly_once[OF assms(1), of x c p] assms(1,2,3) p(1,2) after before by blast
qed

text \<open>
  When a callback that the walk calls in turn calls the token of c, the walk does not
  call c any more.
\<close>

lemma walk_unsubscribed_in_progress:
  assumes "walk B vf i L D = Some r" and "i < length L" and "L ! i = Some a"
    and "get_prop vf ''frame'' = Inr y" and "CallToken c \<in> set (B D a y)"
    and "\<forall>D a y. CallSubscribe c \<notin> set (B D a y)"
  shows "log_of c (fst (snd r)) = log_of c (D @ [(a, y)])"
proof -
  obtain L' w where ro: "run_ops (B D a y) L = (L', w)"
    by (cases "run_ops (B D a y) L")
  show ?thesis
  proof (cases w)
    case True
    then have "r = (L', D @ [(a, y)], True)"
      using assms(1-4) ro by (simp add: walk_call)
    then show ?thesis by simp
  next
    case False
    then have wk': "walk B vf (i + 1) L' (D @ [(a, y)]) = Some r"
      using assms(1-4) ro by (simp add: walk_call)
    have "Some c \<notin> set (fst (run_ops (B D a y) L))"
      using assms(5,6) ro False by (intro run_ops_token) simp_all
    then have "Some c \<notin> set (drop (i + 1) L')" using ro by (auto dest: in_set_dropD)
    then show ?thesis using walk_not_ahead[OF wk', of c] assms(6) by simp
  qed
qed

subsection \<open>Frame subscribers\<close>

text \<open>A frame of another type leaves the subscriber set and the call log as they are.\<close>

lemma dispatch_other_publisher:
  "ty \<noteq> JStr ''video_frame'' \<Longrightarrow>
   frameListenersRef (fst (dispatch B ty d s)) = frameListenersRef s \<and>
   delivered (fst (dispatch B ty d s)) = delivered s \<and>
   hung (fst (dispatch B ty d s)) = hung s"
  by (simp add: dispatch_def setTimeout_def split: sum.splits)

text \<open>
  What a frame does to the subscribers: nothing, or the handler does not return, or the
  publisher has walked the Set.
\<close>

lemma onmessage_publisher_cases:
  obtains (untouched) "frameListenersRef (onmessage B fr s) = frameListenersRef s"
      "delivered (onmessage B fr s) = delivered s" "hung (onmessage B fr s) = hung s"
  | (hangs) vf where "walk B vf 0 (frameListenersRef s) (delivered s) = None"
      "onmessage B fr s = s\<lparr>hung := True\<rparr>"
  | (published) vf L D w where "payload_of ''video_frame'' fr = Some vf"
      "walk B vf 0 (frameListenersRef s) (delivered s) = Some (L, D, w)"
      "onmessage B fr s = s\<lparr>frameListenersRef := L, delivered := D\<rparr>"
proof (rule onmessage_cases[of B fr s])
  assume "onmessage B fr s = s"
  then show ?thesis using untouched by simp
next
  fix msg ty d
  assume o: "onmessage B fr s = fst (dispatch B ty d s)"
    and p: "\<And>tag. payload_of tag fr = (if ty = JStr tag then Some d else None)"
  show ?thesis
  proof (cases "ty = JStr ''video_frame''")
    case True
    show ?thesis
    proof (rule forEach_cb_cases[of B d s])
      assume "walk B d 0 (frameListenersRef s) (delivered s) = None"
        and "forEach_cb B d s = None"
      then show ?thesis using o True hangs[of d] by (simp add: fst_dispatch_video)
    next
      fix L D w
      assume "walk B d 0 (frameListenersRef s) (delivered s) = Some (L, D, w)"
        and "forEach_cb B d s = Some (s\<lparr>frameListenersRef := L, delivered := D\<rparr>, w)"
      then show ?thesis
        using o True p[of "''video_frame''"] published[of d L D w]
        by (simp add: fst_dispatch_video)
    qed
  next
    case False
    then show ?thesis using o untouched dispatch_other_publisher[of ty B d s] by simp
  qed
qed

lemma onmessage_video_frame:
  "onmessage B (video_frame x) s =
     (case walk B (JObj [(''frame'', x)]) 0 (frameListenersRef s) (delivered s) of
        None \<Rightarrow> s\<lparr>hung := True\<rparr>
      | Some (L, D, w) \<Rightarrow> s\<lparr>frameListenersRef := L, delivered := D\<rparr>)"
  by (simp add: onmessage_def try_body_def video_frame_def envelope_def dispatch_def
      forEach_cb_def split: option.splits)

text \<open>When no callback subscribes a callback, the handler returns.\<close>

lemma onmessage_returns:
  assumes "\<forall>D c x a. CallSubscribe a \<notin> set (B D c x)"
  shows "hung (onmessage B fr s) = hung s"
proof (rule onmessage_publisher_cases[of B fr s])
  fix vf
  assume "walk B vf 0 (frameListenersRef s) (delivered s) = None"
  then show ?thesis using walk_returns[OF assms, of vf 0 "frameListenersRef s" "delivered s"]
    by simp
qed simp_all

text \<open>
  A publish need not return: when every callback subscribes a callback that is not in the
  Set yet, the walk visits the new entry, whose callback adds the next one.
\<close>

lemma walk_never_returns_aux:
  "walk B vf i L D = Some r \<Longrightarrow>
   B = (\<lambda>log c x. [CallSubscribe (c + 1)]) \<longrightarrow> get_prop vf ''frame'' = Inr x \<longrightarrow>
   i < length L \<longrightarrow> (\<forall>j < length L. L ! j = Some j) \<longrightarrow> False"
proof (induction B vf i L D r rule: walk.raw_induct[rotated 1, consumes 1])
  case (1 f B vf i L D r)
  note IH = 1(1) and body = 1(2)
  show ?case
  proof (intro impI)
    assume B: "B = (\<lambda>log c x. [CallSubscribe (c + 1)])"
      and fr: "get_prop vf ''frame'' = Inr x"
      and il: "i < length L" and inv: "\<forall>j < length L. L ! j = Some j"
    have at: "L ! i = Some i" using il inv by simp
    let ?L' = "set_add (i + 1) L"
    have b: "f B vf (i + 1) ?L' (D @ [(i, x)]) = Some r"
      using body il at fr B by simp
    have "i + 1 < length ?L' \<and> (\<forall>j < length ?L'. ?L' ! j = Some j)"
    proof (cases "Some (i + 1) \<in> set L")
      case True
      then obtain j where j: "j < length L" "L ! j = Some (i + 1)"
        by (auto simp: in_set_conv_nth)
      then have "j = i + 1" using inv by simp
      then show ?thesis using True j(1) inv by (simp add: set_add_def)
    next
      case False
      have "\<not> i + 1 < length L"
      proof
        assume "i + 1 < length L"
        then have "L ! (i + 1) = Some (i + 1)" using inv by simp
        then show False using False \<open>i + 1 < length L\<close> nth_mem by metis
      qed
      then have "length L = i + 1" using il by simp
      then show ?thesis using False inv by (simp add: set_add_def nth_append)
    qed
    with IH[OF b] B fr show False by blast
  qed
qed

lemma walk_never_returns:
  "walk (\<lambda>log c x. [CallSubscribe (c + 1)]) (JObj [(''frame'', x)]) 0 [Some 0] [] = None"
proof (cases "walk (\<lambda>log c x. [CallSubscribe (c + 1)]) (JObj [(''frame'', x)]) 0 [Some 0] []")
  case (Some r)
  from walk_never_returns_aux[OF this, of x] show ?thesis by simp
qed simp

lemma publish_need_not_return:
  "hung (run (\<lambda>log c x. [CallSubscribe (c + 1)])
           [Mount, WsOpen 0, Subscribe 0, WsMessage 0 (video_frame x)] initial_state)"
proof -
  have "run (\<lambda>log c x. [CallSubscribe (c + 1)]) [Mount, WsOpen 0, Subscribe 0] initial_state =
      initial_state\<lparr>sockets := [OPEN], wsRef := Some 0, connected := True,
        frameListenersRef := [Some 0]\<rparr>"
    by (simp add: run_def step_def mount_def connect_def onopen_def initial_state_def
        subscribeToFrames_def set_add_def)
  then have "run (\<lambda>log c x. [CallSubscribe (c + 1)])
      ([Mount, WsOpen 0, Subscribe 0] @ [WsMessage 0 (video_frame x)]) initial_state =
      step (\<lambda>log c x. [CallSubscribe (c + 1)]) (WsMessage 0 (video_frame x))
        (initial_state\<lparr>sockets := [OPEN], wsRef := Some 0, connected := True,
           frameListenersRef := [Some 0]\<rparr>)"
    by (simp only: run_append run_Cons run_Nil)
  then show ?thesis
    using walk_never_returns[of x]
    by (simp add: step_def onmessage_video_frame initial_state_def)
qed

lemma onmessage_distinct:
  assumes "distinct (members (frameListenersRef s))"
  shows "distinct (members (frameListenersRef (onmessage B fr s)))"
proof (rule onmessage_publisher_cases[of B fr s])
  fix vf L D w
  assume w: "walk B vf 0 (frameListenersRef s) (delivered s) = Some (L, D, w)"
    and o: "onmessage B fr s = s\<lparr>frameListenersRef := L, delivered := D\<rparr>"
  show ?thesis using walk_distinct[OF w] assms o by simp
qed (use assms in simp_all)

lemma onmessage_not_listening:
  assumes "Some c \<notin> set (frameListenersRef s)"
    and "\<forall>D a y. CallSubscribe c \<notin> set (B D a y)"
  shows "calls c (onmessage B fr s) = calls c s \<and>
         Some c \<notin> set (frameListenersRef (onmessage B fr s))"
proof (rule onmessage_publisher_cases[of B fr s])
  fix vf L D w
  assume w: "walk B vf 0 (frameListenersRef s) (delivered s) = Some (L, D, w)"
    and o: "onmessage B fr s = s\<lparr>frameListenersRef := L, delivered := D\<rparr>"
  have "log_of c D = log_of c (delivered s)"
    using walk_not_ahead[OF w, of c] assms by simp
  moreover have "Some c \<notin> set L"
    using walk_not_added[OF w, of c] assms by simp
  ultimately show ?thesis using o by (simp add: calls_def)
qed (use assms in \<open>simp_all add: calls_def\<close>)

lemma step_publisher_other:
  assumes "\<forall>i fr. e \<noteq> WsMessage i fr" and "\<forall>c. e \<noteq> Subscribe c" and "\<forall>c. e \<noteq> Unsubscribe c"
  shows "frameListenersRef (step B e s) = frameListenersRef s \<and>
         delivered (step B e s) = delivered s"
proof (cases e)
  case (Tick d)
  then show ?thesis using tick_timers_only[of s d] by (simp add: step_def timers_only_def)
next
  case ResetState
  then show ?thesis using assms by (simp add: step_def resetState_def)
next
  case Unmount
  then show ?thesis
    by (simp add: step_def unmount_def ws_close_def Let_def split: option.splits)
qed (use assms in \<open>simp_all add: step_def mount_def connect_def
      ws_close_def onopen_def onerror_def onclose_def setTimeout_def Let_def\<close>)

lemma step_distinct:
  "distinct (members (frameListenersRef s)) \<Longrightarrow>
   distinct (members (frameListenersRef (step B e s)))"
proof (cases e)
  case (WsMessage i fr)
  assume "distinct (members (frameListenersRef s))"
  then show ?thesis using WsMessage by (simp add: step_def onmessage_distinct)
next
  case (Subscribe c)
  assume "distinct (members (frameListenersRef s))"
  then show ?thesis using Subscribe
    by (simp add: step_def subscribeToFrames_def set_add_distinct)
next
  case (Unsubscribe c)
  assume "distinct (members (frameListenersRef s))"
  then show ?thesis using Unsubscribe
    by (simp add: step_def unsubscribe_def set_delete_distinct)
qed (use step_publisher_other[of e B s] in simp_all)

lemma run_distinct: "distinct (members (frameListenersRef (run B evs initial_state)))"
proof (induction evs rule: rev_induct)
  case Nil
  show ?case by (simp add: run_Nil initial_state_def members_simps)
next
  case (snoc e evs)
  then show ?case by (simp add: run_append run_Cons run_Nil step_distinct)
qed

lemma step_not_listening:
  assumes "Some c \<notin> set (frameListenersRef s)" and "e \<noteq> Subscribe c"
    and "\<forall>D a y. CallSubscribe c \<notin> set (B D a y)"
  shows "calls c (step B e s) = calls c s \<and> Some c \<notin> set (frameListenersRef (step B e s))"
proof (cases e)
  case (WsMessage i fr)
  then show ?thesis
    using assms(1) onmessage_not_listening[OF assms(1,3), of fr] by (simp add: step_def)
next
  case (Subscribe a)
  then show ?thesis using assms
    by (simp add: step_def subscribeToFrames_def set_add_def calls_def)
next
  case (Unsubscribe a)
  then show ?thesis using assms(1)
    by (auto simp: step_def unsubscribe_def set_delete_def calls_def)
qed (use assms(1) step_publisher_other[of e B s] in \<open>simp_all add: calls_def\<close>)

lemma run_not_listening:
  assumes "\<forall>D a y. CallSubscribe c \<notin> set (B D a y)"
  shows "Some c \<notin> set (frameListenersRef s) \<Longrightarrow> Subscribe c \<notin> set evs \<Longrightarrow>
         calls c (run B evs s) = calls c s \<and> Some c \<notin> set (frameListenersRef (run B evs s))"
proof (induction evs arbitrary: s)
  case Nil
  then show ?case by (simp add: run_Nil)
next
  case (Cons e evs)
  then have e: "e \<noteq> Subscribe c" and r: "Subscribe c \<notin> set evs" by auto
  note st = step_not_listening[OF Cons.prems(1) e assms]
  from Cons.IH[of "step B e s"] st r show ?case by (simp add: run_Cons)
qed

lemma unsubscribe_not_listening: "Some c \<notin> set (frameListenersRef (unsubscribe c s))"
  by (simp add: unsubscribe_def set_delete_not_member)

lemma calls_unsubscribe: "calls c (unsubscribe a s) = calls c s"
  by (simp add: unsubscribe_def calls_def)

lemma calls_subscribeToFrames: "calls c (subscribeToFrames a s) = calls c s"
  by (simp add: subscribeToFrames_def calls_def)

lemma takeWhile_snoc_stop: "c \<notin> set xs \<Longrightarrow> takeWhile (\<lambda>a. a \<noteq> c) (xs @ [c]) = xs"
  by (induction xs) auto

lemma takeWhile_all: "c \<notin> set xs \<Longrightarrow> takeWhile (\<lambda>a. a \<noteq> c) xs = xs"
  by (induction xs) auto

lemma takeWhile_set_add:
  "takeWhile (\<lambda>e. e \<noteq> Some c) (set_add c xs) = takeWhile (\<lambda>e. e \<noteq> Some c) xs"
  by (simp add: set_add_def takeWhile_snoc_stop takeWhile_all)

lemma subscribeToFrames_twice:
  "subscribeToFrames c (subscribeToFrames c s) = subscribeToFrames c s"
  by (simp add: subscribeToFrames_def set_add_def)

lemma subscribeToFrames_many: "(subscribeToFrames c ^^ Suc n) s = subscribeToFrames c s"
  by (induction n) (simp_all add: subscribeToFrames_twice)

text \<open>
  After \<^verbatim>\<open>subscribeToFrames(c)\<close>, a video frame whose publish returns calls c once, when
  no callback subscribes c during the publish and no callback subscribed before c throws
  or calls the token of c.
\<close>

lemma publish_after_subscribe:
  assumes "\<not> hung (onmessage B (video_frame x) (subscribeToFrames c (run B evs0 initial_state)))"
    and "\<forall>D a y. CallSubscribe c \<notin> set (B D a y)"
    and "\<forall>a. Some a \<in> set (takeWhile (\<lambda>e. e \<noteq> Some c) (frameListenersRef (run B evs0 initial_state))) \<longrightarrow>
           (\<forall>D y. Throw \<notin> set (B D a y) \<and> CallToken c \<notin> set (B D a y))"
  shows "calls c (onmessage B (video_frame x) (subscribeToFrames c (run B evs0 initial_state))) =
           calls c (run B evs0 initial_state) @ [x]"
proof -
  let ?r = "run B evs0 initial_state"
  let ?s = "subscribeToFrames c ?r"
  let ?vf = "JObj [(''frame'', x)]"
  have d: "distinct (members (frameListenersRef ?s))"
    using run_distinct[of B evs0] by (simp add: subscribeToFrames_def set_add_distinct)
  have m: "Some c \<in> set (frameListenersRef ?s)"
    by (simp add: subscribeToFrames_def set_add_def)
  have g: "get_prop ?vf ''frame'' = Inr x" by simp
  have "takeWhile (\<lambda>e. e \<noteq> Some c) (frameListenersRef ?s) =
      takeWhile (\<lambda>e. e \<noteq> Some c) (frameListenersRef ?r)"
    by (simp add: subscribeToFrames_def takeWhile_set_add)
  then have h: "\<forall>a. Some a \<in> set (takeWhile (\<lambda>e. e \<noteq> Some c) (frameListenersRef ?s)) \<longrightarrow>
      (\<forall>D y. Throw \<notin> set (B D a y) \<and> CallToken c \<notin> set (B D a y))"
    using assms(3) by simp
  show ?thesis
  proof (cases "walk B ?vf 0 (frameListenersRef ?s) (delivered ?s)")
    case None
    then have "hung (onmessage B (video_frame x) ?s)" by (simp add: onmessage_video_frame)
    then show ?thesis using assms(1) by simp
  next
    case (Some r)
    obtain L D w where r: "r = (L, D, w)" by (cases r)
    have "log_of c (fst (snd r)) = log_of c (delivered ?s) @ [x]"
      using Some g assms(2) d m h by (rule walk_calls_subscriber_once)
    then show ?thesis
      using Some r by (simp add: onmessage_video_frame calls_def subscribeToFrames_def)
  qed
qed

text \<open>
  A video frame whose publish returns calls c once at most, when no callback subscribes
  c during the publish.
\<close>

lemma publish_at_most_once:
  assumes "\<not> hung (onmessage B (video_frame x) s)"
    and "\<forall>D a y. CallSubscribe c \<notin> set (B D a y)"
    and "distinct (members (frameListenersRef s))"
  shows "calls c (onmessage B (video_frame x) s) = calls c s \<or>
         calls c (onmessage B (video_frame x) s) = calls c s @ [x]"
proof (cases "walk B (JObj [(''frame'', x)]) 0 (frameListenersRef s) (delivered s)")
  case None
  then have "hung (onmessage B (video_frame x) s)" by (simp add: onmessage_video_frame)
  then show ?thesis using assms(1) by simp
next
  case (Some r)
  obtain L D w where r: "r = (L, D, w)" by (cases r)
  have "log_of c (fst (snd r)) = log_of c (delivered s) \<or>
     (\<exists>y. get_prop (JObj [(''frame'', x)]) ''frame'' = Inr y \<and>
        log_of c (fst (snd r)) = log_of c (delivered s) @ [y])"
    using walk_at_most_once[OF Some, of c] Some assms(2,3) by blast
  then show ?thesis
    using Some r by (auto simp: onmessage_video_frame calls_def)
qed

text \<open>
  Claim C5 as stated fails: an exception thrown by a callback ends the walk over the Set
  (the \<^verbatim>\<open>catch\<close> of the handler takes it), so the callbacks after it in the Set are not
  called with that frame. With callbacks 1 and 2 subscribed in this order and callback 1
  throwing, a video frame calls callback 1 and does not call callback 2.
\<close>

theorem throwing_callback_ends_the_walk:
  "calls 2
     (run (\<lambda>log c x. if c = 1 then [Throw] else [])
        [Mount, WsOpen 0, Subscribe 1, Subscribe 2, WsMessage 0 (video_frame (JStr ''img''))]
        initial_state) = [] \<and>
   delivered
     (run (\<lambda>log c x. if c = 1 then [Throw] else [])
        [Mount, WsOpen 0, Subscribe 1, Subscribe 2, WsMessage 0 (video_frame (JStr ''img''))]
        initial_state) = [(1, JStr ''img'')] \<and>
   frameListenersRef
     (run (\<lambda>log c x. if c = 1 then [Throw] else [])
        [Mount, WsOpen 0, Subscribe 1, Subscribe 2, WsMessage 0 (video_frame (JStr ''img''))]
        initial_state) = [Some 1, Some 2]"
  by (simp add: calls_def log_of_def run_def step_def mount_def connect_def onopen_def
      initial_state_def subscribeToFrames_def set_add_def onmessage_video_frame walk.simps)

text \<open>
  Claim C5, amended. A publish returns when callbacks do not call
  \<^verbatim>\<open>subscribeToFrames\<close>. In every state the hook can reach, after
  \<^verbatim>\<open>subscribeToFrames(cb)\<close> a video frame with payload x whose publish returns calls
  cb once more, with x, when callbacks do not subscribe cb and none of the callbacks
  subscribed before cb throws or calls the token of cb. After the token of cb has been
  called, no later event calls cb, whether callbacks throw, call tokens or subscribe
  other callbacks, as long as cb is not subscribed again, by an event or by a callback.
  This holds inside a publish too: when a callback that the walk calls in turn calls the
  token of cb, the walk does not call cb any more.
\<close>

theorem subscribe_publish_unsubscribe:
  "((\<forall>D a y c. CallSubscribe c \<notin> set (B D a y)) \<longrightarrow> hung (onmessage B fr s) = hung s) \<and>
   (\<not> hung (onmessage B (video_frame x) (subscribeToFrames cb (run B evs0 initial_state))) \<and>
    (\<forall>D a y. CallSubscribe cb \<notin> set (B D a y)) \<and>
    (\<forall>a. Some a \<in> set (takeWhile (\<lambda>e. e \<noteq> Some cb) (frameListenersRef (run B evs0 initial_state))) \<longrightarrow>
       (\<forall>D y. Throw \<notin> set (B D a y) \<and> CallToken cb \<notin> set (B D a y))) \<longrightarrow>
      calls cb (onmessage B (video_frame x) (subscribeToFrames cb (run B evs0 initial_state))) =
        calls cb (run B evs0 initial_state) @ [x]) \<and>
   (Subscribe cb \<notin> set evs \<and> (\<forall>D a y. CallSubscribe cb \<notin> set (B D a y)) \<longrightarrow>
      calls cb (run B evs (unsubscribe cb s)) = calls cb s) \<and>
   (walk B vf i L D = Some r \<and> i < length L \<and> L ! i = Some a \<and>
    get_prop vf ''frame'' = Inr y \<and> CallToken cb \<in> set (B D a y) \<and>
    (\<forall>D a y. CallSubscribe cb \<notin> set (B D a y)) \<longrightarrow>
      log_of cb (fst (snd r)) = log_of cb (D @ [(a, y)]))"
proof -
  let ?r = "run B evs0 initial_state"
  have 1: "hung (onmessage B fr s) = hung s" if "\<forall>D a y c. CallSubscribe c \<notin> set (B D a y)"
    using that by (intro onmessage_returns) simp
  have 2: "calls cb (onmessage B (video_frame x) (subscribeToFrames cb ?r)) = calls cb ?r @ [x]"
    if "\<not> hung (onmessage B (video_frame x) (subscribeToFrames cb ?r))"
      and "\<forall>D a y. CallSubscribe cb \<notin> set (B D a y)"
      and "\<forall>a. Some a \<in> set (takeWhile (\<lambda>e. e \<noteq> Some cb) (frameListenersRef ?r)) \<longrightarrow>
         (\<forall>D y. Throw \<notin> set (B D a y) \<and> CallToken cb \<notin> set (B D a y))"
    using that by (rule publish_after_subscribe)
  have 3: "calls cb (run B evs (unsubscribe cb s)) = calls cb s"
    if "Subscribe cb \<notin> set evs" and n: "\<forall>D a y. CallSubscribe cb \<notin> set (B D a y)"
    using run_not_listening[OF n unsubscribe_not_listening that(1), of s]
    by (simp add: calls_unsubscribe)
  have 4: "log_of cb (fst (snd r)) = log_of cb (D @ [(a, y)])"
    if "walk B vf i L D = Some r" and "i < length L" and "L ! i = Some a"
      and "get_prop vf ''frame'' = Inr y" and "CallToken cb \<in> set (B D a y)"
      and "\<forall>D a y. CallSubscribe cb \<notin> set (B D a y)"
    using that by (rule walk_unsubscribed_in_progress)
  show ?thesis using 1 2 3 4 by blast
qed

theorem subscribe_publish_unsubscribe_witness:
  "\<not> hung (onmessage (\<lambda>log c x. if c = 3 then [CallToken 3] else []) (video_frame (JStr ''img''))
       (subscribeToFrames 5
          (run (\<lambda>log c x. if c = 3 then [CallToken 3] else []) [Mount, WsOpen 0, Subscribe 3]
             initial_state))) \<and>
   calls 5
     (onmessage (\<lambda>log c x. if c = 3 then [CallToken 3] else []) (video_frame (JStr ''img''))
        (subscribeToFrames 5
           (run (\<lambda>log c x. if c = 3 then [CallToken 3] else []) [Mount, WsOpen 0, Subscribe 3]
              initial_state))) =
     [JStr ''img''] \<and>
   calls 5
     (onmessage (\<lambda>log c x. [Throw]) (video_frame (JStr ''img''))
        (subscribeToFrames 5 (run (\<lambda>log c x. [Throw]) [Mount, WsOpen 0] initial_state))) =
     [JStr ''img''] \<and>
   calls 5
     (run (\<lambda>log c x. []) [Mount, WsOpen 0, WsMessage 0 (video_frame (JStr ''img''))]
        (unsubscribe 5 (subscribeToFrames 5 initial_state))) = [] \<and>
   walk (\<lambda>log c x. if c = 1 then [CallToken 2] else []) (JObj [(''frame'', JStr ''img'')]) 0
     [Some 1, Some 2] [] = Some ([Some 1, None], [(1, JStr ''img'')], False) \<and>
   log_of 2 [(1, JStr ''img'')] = []"
proof -
  let ?B = "(\<lambda>log c x. []) :: behaviour"
  let ?B3 = "(\<lambda>log c x. if c = 3 then [CallToken 3] else []) :: behaviour"
  let ?T = "(\<lambda>log c x. [Throw]) :: behaviour"
  let ?B1 = "(\<lambda>log c x. if c = 1 then [CallToken 2] else []) :: behaviour"
  let ?img = "JStr ''img''"
  let ?vf = "JObj [(''frame'', ?img)]"
  let ?r = "run ?B3 [Mount, WsOpen 0, Subscribe 3] initial_state"
  let ?r' = "run ?T [Mount, WsOpen 0] initial_state"
  have r: "frameListenersRef ?r = [Some 3]" "calls 5 ?r = []" "\<not> hung ?r"
    by (simp_all add: calls_def log_of_def run_def step_def mount_def connect_def onopen_def
        initial_state_def subscribeToFrames_def set_add_def)
  have n3: "\<forall>D a y c. CallSubscribe c \<notin> set (?B3 D a y)" by simp
  have "hung (onmessage ?B3 (video_frame ?img) (subscribeToFrames 5 ?r)) =
      hung (subscribeToFrames 5 ?r)"
    using subscribe_publish_unsubscribe[where B = ?B3 and fr = "video_frame ?img"
        and s = "subscribeToFrames 5 ?r"] n3 by blast
  then have 0: "\<not> hung (onmessage ?B3 (video_frame ?img) (subscribeToFrames 5 ?r))"
    using r(3) by (simp add: subscribeToFrames_def)
  have h: "\<forall>a. Some a \<in> set (takeWhile (\<lambda>e. e \<noteq> Some 5) (frameListenersRef ?r)) \<longrightarrow>
      (\<forall>D y. Throw \<notin> set (?B3 D a y) \<and> CallToken 5 \<notin> set (?B3 D a y))"
    unfolding r(1) by simp
  have n5: "\<forall>D a y. CallSubscribe 5 \<notin> set (?B3 D a y)" by simp
  have "calls 5 (onmessage ?B3 (video_frame ?img) (subscribeToFrames 5 ?r)) = calls 5 ?r @ [?img]"
    using subscribe_publish_unsubscribe[where B = ?B3 and cb = 5 and x = ?img
        and ?evs0.0 = "[Mount, WsOpen 0, Subscribe 3]"] 0 n5 h by blast
  then have 1: "calls 5 (onmessage ?B3 (video_frame ?img) (subscribeToFrames 5 ?r)) = [?img]"
    using r(2) by simp
  have e: "frameListenersRef ?r' = []" "calls 5 ?r' = []" "\<not> hung ?r'"
    by (simp_all add: calls_def log_of_def run_def step_def mount_def connect_def onopen_def
        initial_state_def)
  have nT: "\<forall>D a y c. CallSubscribe c \<notin> set (?T D a y)" by simp
  have "hung (onmessage ?T (video_frame ?img) (subscribeToFrames 5 ?r')) =
      hung (subscribeToFrames 5 ?r')"
    using subscribe_publish_unsubscribe[where B = ?T and fr = "video_frame ?img"
        and s = "subscribeToFrames 5 ?r'"] nT by blast
  then have t0: "\<not> hung (onmessage ?T (video_frame ?img) (subscribeToFrames 5 ?r'))"
    using e(3) by (simp add: subscribeToFrames_def)
  have hT: "\<forall>a. Some a \<in> set (takeWhile (\<lambda>e. e \<noteq> Some 5) (frameListenersRef ?r')) \<longrightarrow>
      (\<forall>D y. Throw \<notin> set (?T D a y) \<and> CallToken 5 \<notin> set (?T D a y))"
    unfolding e(1) by simp
  have nT5: "\<forall>D a y. CallSubscribe 5 \<notin> set (?T D a y)" by simp
  have "calls 5 (onmessage ?T (video_frame ?img) (subscribeToFrames 5 ?r')) = calls 5 ?r' @ [?img]"
    using subscribe_publish_unsubscribe[where B = ?T and cb = 5 and x = ?img
        and ?evs0.0 = "[Mount, WsOpen 0]"] t0 nT5 hT by blast
  then have k: "calls 5 (onmessage ?T (video_frame ?img) (subscribeToFrames 5 ?r')) = [?img]"
    using e(2) by simp
  have n: "Subscribe 5 \<notin> set [Mount, WsOpen 0, WsMessage 0 (video_frame ?img)]"
    "\<forall>D a y. CallSubscribe 5 \<notin> set (?B D a y)"
    by simp_all
  have c1: "calls 5 (subscribeToFrames 5 initial_state) = []"
    by (simp add: calls_def log_of_def subscribeToFrames_def initial_state_def)
  have "calls 5 (run ?B [Mount, WsOpen 0, WsMessage 0 (video_frame ?img)]
        (unsubscribe 5 (subscribeToFrames 5 initial_state))) =
      calls 5 (subscribeToFrames 5 initial_state)"
    using subscribe_publish_unsubscribe[where B = ?B and cb = 5
        and evs = "[Mount, WsOpen 0, WsMessage 0 (video_frame ?img)]"
        and s = "subscribeToFrames 5 initial_state"] n
    by blast
  then have 2: "calls 5 (run ?B [Mount, WsOpen 0, WsMessage 0 (video_frame ?img)]
        (unsubscribe 5 (subscribeToFrames 5 initial_state))) = []"
    using c1 by simp
  have w: "walk ?B1 ?vf 0 [Some 1, Some 2] [] = Some ([Some 1, None], [(1, ?img)], False)"
    by (simp add: walk.simps set_delete_def)
  have p: "(0::nat) < length [Some (1::nat), Some 2]" "[Some (1::nat), Some 2] ! 0 = Some 1"
    "get_prop ?vf ''frame'' = Inr ?img" "CallToken 2 \<in> set (?B1 [] 1 ?img)"
    "\<forall>D a y. CallSubscribe 2 \<notin> set (?B1 D a y)"
    by simp_all
  have "log_of 2 (fst (snd ([Some (1::nat), None], [(1, ?img)], False))) =
      log_of 2 ([] @ [(1, ?img)])"
    by (rule subscribe_publish_unsubscribe[where B = ?B1 and cb = 2 and a = 1 and vf = ?vf
          and i = 0 and L = "[Some 1, Some 2]" and D = "[]" and y = ?img
          and r = "([Some 1, None], [(1, ?img)], False)",
          THEN conjunct2, THEN conjunct2, THEN conjunct2, THEN mp])
      (intro conjI w p)
  then have 3: "log_of 2 [(1, ?img)] = []"
    by (simp add: log_of_def)
  show ?thesis using 0 1 k 2 w 3 by blast
qed

text \<open>
  Claim C9 as stated fails: \<^verbatim>\<open>Set.prototype.forEach\<close> visits an entry that is added
  during the walk, and a value that is deleted and added again gets a new entry at the end
  of the Set. With callbacks 1 and 2 subscribed in this order, and callback 2 calling the
  token of callback 1 and then \<^verbatim>\<open>subscribeToFrames\<close> with callback 1, one video frame
  calls callback 1 twice.
\<close>

theorem resubscribed_callback_is_called_twice:
  "calls 1
     (run (\<lambda>log c x. if c = 2 then [CallToken 1, CallSubscribe 1] else [])
        [Mount, WsOpen 0, Subscribe 1, Subscribe 2, WsMessage 0 (video_frame (JStr ''img''))]
        initial_state) = [JStr ''img'', JStr ''img''] \<and>
   frameListenersRef
     (run (\<lambda>log c x. if c = 2 then [CallToken 1, CallSubscribe 1] else [])
        [Mount, WsOpen 0, Subscribe 1, Subscribe 2, WsMessage 0 (video_frame (JStr ''img''))]
        initial_state) = [None, Some 2, Some 1] \<and>
   \<not> hung
     (run (\<lambda>log c x. if c = 2 then [CallToken 1, CallSubscribe 1] else [])
        [Mount, WsOpen 0, Subscribe 1, Subscribe 2, WsMessage 0 (video_frame (JStr ''img''))]
        initial_state)"
  by (simp add: calls_def log_of_def run_def step_def mount_def connect_def onopen_def
      initial_state_def subscribeToFrames_def set_add_def set_delete_def onmessage_video_frame
      walk.simps)

text \<open>
  Claim C9, amended. Subscribing a callback that is subscribed already changes nothing:
  however many times c is subscribed, the state is the one after the first subscription,
  and the Set never holds a callback twice. A video frame whose publish returns then calls
  c once at most when callbacks do not subscribe c, whether or not callbacks throw, call
  tokens or subscribe other callbacks, and once when in addition none of the callbacks
  subscribed before c throws or calls the token of c. One call of the token takes c out
  of the Set, and no later event calls c as long as c is not subscribed again, by an
  event or by a callback.
\<close>

theorem subscription_is_idempotent:
  "(subscribeToFrames c ^^ Suc n) s = subscribeToFrames c s \<and>
   (Some c \<in> set (frameListenersRef s) \<longrightarrow> subscribeToFrames c s = s) \<and>
   distinct (members (frameListenersRef (run B evs0 initial_state))) \<and>
   (\<not> hung (onmessage B (video_frame x)
              ((subscribeToFrames c ^^ Suc n) (run B evs0 initial_state))) \<and>
    (\<forall>D a y. CallSubscribe c \<notin> set (B D a y)) \<longrightarrow>
      calls c (onmessage B (video_frame x)
                 ((subscribeToFrames c ^^ Suc n) (run B evs0 initial_state))) =
        calls c (run B evs0 initial_state) \<or>
      calls c (onmessage B (video_frame x)
                 ((subscribeToFrames c ^^ Suc n) (run B evs0 initial_state))) =
        calls c (run B evs0 initial_state) @ [x]) \<and>
   (\<not> hung (onmessage B (video_frame x)
              ((subscribeToFrames c ^^ Suc n) (run B evs0 initial_state))) \<and>
    (\<forall>D a y. CallSubscribe c \<notin> set (B D a y)) \<and>
    (\<forall>a. Some a \<in> set (takeWhile (\<lambda>e. e \<noteq> Some c) (frameListenersRef (run B evs0 initial_state))) \<longrightarrow>
       (\<forall>D y. Throw \<notin> set (B D a y) \<and> CallToken c \<notin> set (B D a y))) \<longrightarrow>
      calls c (onmessage B (video_frame x)
                 ((subscribeToFrames c ^^ Suc n) (run B evs0 initial_state))) =
        calls c (run B evs0 initial_state) @ [x]) \<and>
   Some c \<notin> set (frameListenersRef (unsubscribe c ((subscribeToFrames c ^^ Suc n) s))) \<and>
   (Subscribe c \<notin> set evs \<and> (\<forall>D a y. CallSubscribe c \<notin> set (B D a y)) \<longrightarrow>
      calls c (run B evs (unsubscribe c ((subscribeToFrames c ^^ Suc n) s))) = calls c s)"
proof -
  let ?r = "run B evs0 initial_state"
  have 1: "(subscribeToFrames c ^^ Suc n) s = subscribeToFrames c s" for s
    by (rule subscribeToFrames_many)
  have 2: "subscribeToFrames c s = s" if "Some c \<in> set (frameListenersRef s)"
    using that by (simp add: subscribeToFrames_def set_add_def)
  have 3: "calls c (onmessage B (video_frame x) (subscribeToFrames c ?r)) = calls c ?r @ [x]"
    if "\<not> hung (onmessage B (video_frame x) (subscribeToFrames c ?r))"
      and "\<forall>D a y. CallSubscribe c \<notin> set (B D a y)"
      and "\<forall>a. Some a \<in> set (takeWhile (\<lambda>e. e \<noteq> Some c) (frameListenersRef ?r)) \<longrightarrow>
          (\<forall>D y. Throw \<notin> set (B D a y) \<and> CallToken c \<notin> set (B D a y))"
    using that by (rule publish_after_subscribe)
  have 4: "calls c (run B evs (unsubscribe c (subscribeToFrames c s))) = calls c s"
    if "Subscribe c \<notin> set evs" and m: "\<forall>D a y. CallSubscribe c \<notin> set (B D a y)"
    using run_not_listening[OF m unsubscribe_not_listening that(1), of "subscribeToFrames c s"]
    by (simp add: calls_unsubscribe calls_subscribeToFrames)
  have d: "distinct (members (frameListenersRef (subscribeToFrames c ?r)))"
    using run_distinct[of B evs0] by (simp add: subscribeToFrames_def set_add_distinct)
  have 5: "calls c (onmessage B (video_frame x) (subscribeToFrames c ?r)) = calls c ?r \<or>
      calls c (onmessage B (video_frame x) (subscribeToFrames c ?r)) = calls c ?r @ [x]"
    if "\<not> hung (onmessage B (video_frame x) (subscribeToFrames c ?r))"
      and "\<forall>D a y. CallSubscribe c \<notin> set (B D a y)"
    using publish_at_most_once[OF that d] by (simp add: calls_subscribeToFrames)
  show ?thesis
    unfolding 1 using 2 3 4 5 run_distinct[of B evs0] unsubscribe_not_listening by blast
qed

theorem subscription_is_idempotent_witness:
  "frameListenersRef (subscribeToFrames 4 (subscribeToFrames 4 (subscribeToFrames 4 initial_state))) =
     [Some 4] \<and>
   calls 4
     (onmessage (\<lambda>log c x. if c = 4 then [CallSubscribe 9] else []) (video_frame (JStr ''img''))
        (subscribeToFrames 4 (subscribeToFrames 4
           (run (\<lambda>log c x. if c = 4 then [CallSubscribe 9] else []) [Subscribe 4] initial_state))))
     = [JStr ''img''] \<and>
   calls 4
     (run (\<lambda>log c x. []) [Mount, WsOpen 0, WsMessage 0 (video_frame (JStr ''img''))]
        (unsubscribe 4 (subscribeToFrames 4 (subscribeToFrames 4 initial_state)))) = []"
proof -
  let ?B = "(\<lambda>log c x. []) :: behaviour"
  let ?B9 = "(\<lambda>log c x. if c = 4 then [CallSubscribe 9] else []) :: behaviour"
  let ?img = "JStr ''img''"
  let ?r = "run ?B9 [Subscribe 4] initial_state"
  have f: "(subscribeToFrames 4 ^^ Suc 1) s = subscribeToFrames 4 (subscribeToFrames 4 s)" for s
    by simp
  have r: "frameListenersRef ?r = [Some 4]"
    by (simp add: run_def step_def subscribeToFrames_def set_add_def initial_state_def)
  have g: "\<not> hung (onmessage ?B9 (video_frame ?img) ((subscribeToFrames 4 ^^ Suc 1) ?r))"
    by (simp add: run_def step_def subscribeToFrames_def set_add_def initial_state_def
        onmessage_video_frame walk.simps)
  have h: "\<forall>a. Some a \<in> set (takeWhile (\<lambda>e. e \<noteq> Some 4) (frameListenersRef ?r)) \<longrightarrow>
      (\<forall>D y. Throw \<notin> set (?B9 D a y) \<and> CallToken 4 \<notin> set (?B9 D a y))"
    unfolding r by simp
  have m: "\<forall>D a y. CallSubscribe 4 \<notin> set (?B9 D a y)" by simp
  have n: "Subscribe 4 \<notin> set [Mount, WsOpen 0, WsMessage 0 (video_frame ?img)]"
    "\<forall>D a y. CallSubscribe 4 \<notin> set (?B D a y)"
    by simp_all
  have c0: "calls 4 ?r = []" "calls 4 initial_state = []"
    by (simp_all add: calls_def log_of_def run_def step_def subscribeToFrames_def
        initial_state_def)
  have 1: "frameListenersRef (subscribeToFrames 4 (subscribeToFrames 4 (subscribeToFrames 4 initial_state))) = [Some 4]"
    by (simp add: subscribeToFrames_def set_add_def initial_state_def)
  have "calls 4 (onmessage ?B9 (video_frame ?img) ((subscribeToFrames 4 ^^ Suc 1) ?r)) =
      calls 4 ?r @ [?img]"
    using subscription_is_idempotent[where c = 4 and n = 1 and B = ?B9 and x = ?img
        and ?evs0.0 = "[Subscribe 4]"] g m h
    by blast
  then have 2: "calls 4 (onmessage ?B9 (video_frame ?img)
        (subscribeToFrames 4 (subscribeToFrames 4 ?r))) = [?img]"
    unfolding f c0(1) by simp
  have "calls 4 (run ?B [Mount, WsOpen 0, WsMessage 0 (video_frame ?img)]
        (unsubscribe 4 ((subscribeToFrames 4 ^^ Suc 1) initial_state))) = calls 4 initial_state"
    using subscription_is_idempotent[where c = 4 and n = 1 and B = ?B and s = initial_state
        and evs = "[Mount, WsOpen 0, WsMessage 0 (video_frame ?img)]"] n
    by blast
  then have 3: "calls 4 (run ?B [Mount, WsOpen 0, WsMessage 0 (video_frame ?img)]
        (unsubscribe 4 (subscribeToFrames 4 (subscribeToFrames 4 initial_state)))) = []"
    unfolding f c0(2) by simp
  show ?thesis using 1 2 3 by blast
qed

subsection \<open>The notification and its timers\<close>

lemma onmessage_status_frame:
  "onmessage B (status_frame st m) s =
     s\<lparr>notification := Some \<lparr>ntype = JStr st, message = JStr m, extra = JUndefined\<rparr>,
       timers := timers s @ [(now s + 5000, ClearNotification)]\<rparr>"
  by (simp add: onmessage_def try_body_def status_frame_def envelope_def dispatch_def
      setTimeout_def)

text \<open>
  Claim C4, at the input where the code departs from it. A status ``a'' is posted at
  time 0 and a status ``b'' at time 3000. At time 4999 ``b'' is shown; at time 5000 the
  timer of ``a'', which the second post did not cancel, empties the notification, 2000
  milliseconds after ``b'' was posted; the timer of ``b'' is still pending, due at 8000.
\<close>

theorem superseding_notification_cleared_early:
  "notification
     (run (\<lambda>log c x. [])
        [Mount, WsOpen 0, WsMessage 0 (status_frame ''info'' ''a''), Tick 3000,
         WsMessage 0 (status_frame ''info'' ''b''), Tick 1999] initial_state) =
     Some \<lparr>ntype = JStr ''info'', message = JStr ''b'', extra = JUndefined\<rparr> \<and>
   notification
     (run (\<lambda>log c x. [])
        [Mount, WsOpen 0, WsMessage 0 (status_frame ''info'' ''a''), Tick 3000,
         WsMessage 0 (status_frame ''info'' ''b''), Tick 2000] initial_state) = None \<and>
   now
     (run (\<lambda>log c x. [])
        [Mount, WsOpen 0, WsMessage 0 (status_frame ''info'' ''a''), Tick 3000,
         WsMessage 0 (status_frame ''info'' ''b''), Tick 2000] initial_state) = 5000 \<and>
   timers
     (run (\<lambda>log c x. [])
        [Mount, WsOpen 0, WsMessage 0 (status_frame ''info'' ''a''), Tick 3000,
         WsMessage 0 (status_frame ''info'' ''b''), Tick 2000] initial_state) =
     [(8000, ClearNotification)]"
  by (simp add: run_def step_def mount_def connect_def onopen_def initial_state_def
      onmessage_status_frame tick_def Let_def fire_def)

text \<open>
  A status posted while no timer of an earlier notification is pending is shown for
  5000 milliseconds and is gone then, when nothing but time passes.
\<close>

lemma fold_fire_clears:
  "ClearNotification \<in> set as \<Longrightarrow> notification (fold fire as s) = None"
proof (induction as arbitrary: s)
  case Nil
  then show ?case by simp
next
  case (Cons a as)
  show ?case
  proof (cases "ClearNotification \<in> set as")
    case True
    then show ?thesis using Cons.IH by simp
  next
    case False
    then have "a = ClearNotification" using Cons.prems by simp
    then have "notification (fire a s) = None" by (simp add: fire_def)
    then show ?thesis using fold_fire_notification[OF False, of "fire a s"] by simp
  qed
qed

lemma lone_notification_expires:
  assumes "\<forall>(u, a) \<in> set (timers s). a \<noteq> ClearNotification" and "d < 5000"
  shows "notification (tick d (onmessage B (status_frame st m) s)) =
           Some \<lparr>ntype = JStr st, message = JStr m, extra = JUndefined\<rparr>"
    and "notification (tick 5000 (onmessage B (status_frame st m) s)) = None"
proof -
  let ?p = "onmessage B (status_frame st m) s"
  have "\<forall>(u, a) \<in> set (timers ?p). a = ClearNotification \<longrightarrow> now ?p + d < u"
    using assms by (auto simp: onmessage_status_frame)
  then have "notification (tick d ?p) = notification ?p" by (rule tick_notification)
  then show "notification (tick d ?p) =
      Some \<lparr>ntype = JStr st, message = JStr m, extra = JUndefined\<rparr>"
    by (simp add: onmessage_status_frame)
  have "(now s + 5000, ClearNotification) \<in> set (filter (\<lambda>(u, a). u \<le> now ?p + 5000) (timers ?p))"
    by (simp add: onmessage_status_frame)
  then have "snd (now s + 5000, ClearNotification) \<in>
      snd ` set (filter (\<lambda>(u, a). u \<le> now ?p + 5000) (timers ?p))"
    by (rule imageI)
  then have "ClearNotification \<in>
      set (map snd (sort_key fst (filter (\<lambda>(u, a). u \<le> now ?p + 5000) (timers ?p))))"
    by simp
  then show "notification (tick 5000 ?p) = None"
    unfolding tick_def Let_def by (rule fold_fire_clears)
qed

subsection \<open>Teardown\<close>

lemma dispatch_connection:
  "mountedRef (fst (dispatch B ty d s)) = mountedRef s \<and>
   sockets (fst (dispatch B ty d s)) = sockets s \<and>
   wsRef (fst (dispatch B ty d s)) = wsRef s \<and>
   reconnects (fst (dispatch B ty d s)) = reconnects s"
proof (cases "ty = JStr ''video_frame''")
  case True
  then show ?thesis using dispatch_video_publisher_only[of s B d]
    by (simp add: publisher_only_def reconnects_def)
next
  case False
  then show ?thesis
    by (simp add: dispatch_def setTimeout_def reconnects_def split: sum.splits)
qed

lemma onmessage_connection:
  "mountedRef (onmessage B fr s) = mountedRef s \<and>
   sockets (onmessage B fr s) = sockets s \<and>
   wsRef (onmessage B fr s) = wsRef s \<and>
   reconnects (onmessage B fr s) = reconnects s"
  by (rule onmessage_cases[of B fr s]) (simp_all add: dispatch_connection)

lemma fold_fire_unmounted:
  "\<not> mountedRef s \<Longrightarrow>
   \<not> mountedRef (fold fire as s) \<and> sockets (fold fire as s) = sockets s \<and>
   wsRef (fold fire as s) = wsRef s \<and> timers (fold fire as s) = timers s"
proof (induction as arbitrary: s)
  case Nil
  then show ?case by simp
next
  case (Cons a as)
  have f: "\<not> mountedRef (fire a s) \<and> sockets (fire a s) = sockets s \<and>
      wsRef (fire a s) = wsRef s \<and> timers (fire a s) = timers s"
    using Cons.prems by (cases a) (simp_all add: fire_def connect_def)
  then have "\<not> mountedRef (fire a s)" by simp
  from Cons.IH[OF this] f show ?case by simp
qed

lemma length_filter_filter_le: "length (filter Q (filter P xs)) \<le> length (filter Q xs)"
  by (induction xs) auto

lemma tick_unmounted:
  assumes "\<not> mountedRef s"
  shows "\<not> mountedRef (tick d s) \<and> sockets (tick d s) = sockets s \<and>
         wsRef (tick d s) = wsRef s \<and> reconnects (tick d s) \<le> reconnects s"
proof -
  let ?u = "s\<lparr>now := now s + d, timers := filter (\<lambda>(u, a). \<not> u \<le> now s + d) (timers s)\<rparr>"
  let ?as = "map snd (sort_key fst (filter (\<lambda>(u, a). u \<le> now s + d) (timers s)))"
  have t: "tick d s = fold fire ?as ?u" by (simp add: tick_def Let_def)
  have le: "reconnects ?u \<le> reconnects s"
    unfolding reconnects_def by (simp del: filter_filter add: length_filter_filter_le)
  have "\<not> mountedRef ?u" using assms by simp
  from fold_fire_unmounted[OF this, of ?as]
  have f: "\<not> mountedRef (fold fire ?as ?u)" "sockets (fold fire ?as ?u) = sockets s"
    "wsRef (fold fire ?as ?u) = wsRef s" "timers (fold fire ?as ?u) = timers ?u"
    by simp_all
  have "reconnects (fold fire ?as ?u) = reconnects ?u"
    unfolding reconnects_def f(4) ..
  then show ?thesis unfolding t using f le by simp
qed

lemma step_unmounted:
  assumes "\<not> mountedRef s" and "e \<noteq> Mount"
  shows "\<not> mountedRef (step B e s) \<and> length (sockets (step B e s)) = length (sockets s) \<and>
         wsRef (step B e s) = wsRef s \<and> reconnects (step B e s) \<le> reconnects s"
proof (cases e)
  case (WsMessage i fr)
  then show ?thesis using assms(1) onmessage_connection[of B fr s] by (simp add: step_def)
next
  case (Tick d)
  then show ?thesis using tick_unmounted[OF assms(1), of d] by (simp add: step_def)
next
  case Unmount
  then show ?thesis
    by (simp add: step_def unmount_def ws_close_def Let_def reconnects_def split: option.splits)
qed (use assms in \<open>simp_all add: step_def ws_close_def onopen_def onerror_def onclose_def
      Let_def subscribeToFrames_def unsubscribe_def resetState_def reconnects_def\<close>)

lemma run_unmounted:
  "\<not> mountedRef s \<Longrightarrow> Mount \<notin> set evs \<Longrightarrow>
   \<not> mountedRef (run B evs s) \<and> length (sockets (run B evs s)) = length (sockets s) \<and>
   wsRef (run B evs s) = wsRef s \<and> reconnects (run B evs s) \<le> reconnects s"
proof (induction evs arbitrary: s)
  case Nil
  then show ?case by (simp add: run_Nil)
next
  case (Cons e evs)
  then have e: "e \<noteq> Mount" and r: "Mount \<notin> set evs" by auto
  note st = step_unmounted[OF Cons.prems(1) e, of B]
  then have "\<not> mountedRef (step B e s)" by simp
  from Cons.IH[OF this r] st show ?case by (simp add: run_Cons)
qed

lemma unmount_effect:
  "\<not> mountedRef (unmount s) \<and> timers (unmount s) = timers s \<and>
   length (sockets (unmount s)) = length (sockets s) \<and> wsRef (unmount s) = wsRef s"
  by (simp add: unmount_def ws_close_def Let_def split: option.splits)

text \<open>
  Claim C6 as stated fails: unmounting does not cancel a pending reconnection timer. After
  a close has scheduled the reconnection for time 1000, the timer is still pending after
  the unmount.
\<close>

theorem unmount_keeps_reconnect_timer:
  "timers (run (\<lambda>log c x. []) [Mount, WsClose 0, Unmount] initial_state) = [(1000, Reconnect)]"
  by (simp add: run_def step_def mount_def connect_def initial_state_def onclose_def
      setTimeout_def Let_def reconnect_delay_def increment_def exact_limit_def unmount_def
      ws_close_def)

text \<open>
  Claim C6, amended. Unmounting starts the close of the socket in \<^verbatim>\<open>wsRef\<close> if it is
  connecting or open, and leaves the pending timers as they are. From then on, as long as
  the hook is not mounted again, no event creates a socket or schedules a reconnection: a
  close event returns before it schedules one, and a reconnection timer that was pending
  runs at its time and does nothing.
\<close>

theorem teardown_stops_reconnection:
  "(wsRef s = Some i \<and> i < length (sockets s) \<longrightarrow>
      sockets (step B Unmount s) ! i = CLOSING \<or> sockets (step B Unmount s) ! i = CLOSED) \<and>
   timers (step B Unmount s) = timers s \<and>
   (Mount \<notin> set evs \<longrightarrow>
      length (sockets (run B evs (step B Unmount s))) = length (sockets s) \<and>
      reconnects (run B evs (step B Unmount s)) \<le> reconnects s \<and>
      \<not> mountedRef (run B evs (step B Unmount s))) \<and>
   (\<not> mountedRef s \<longrightarrow>
      fire Reconnect s = s \<and> timers (step B (WsClose j) s) = timers s \<and>
      length (sockets (step B (WsClose j) s)) = length (sockets s))"
proof -
  have 1: "sockets (step B Unmount s) ! i = CLOSING \<or> sockets (step B Unmount s) ! i = CLOSED"
    if "wsRef s = Some i \<and> i < length (sockets s)"
    using that by (cases "sockets s ! i") (simp_all add: step_def unmount_def ws_close_def Let_def)
  note u = unmount_effect[of s]
  have 2: "timers (step B Unmount s) = timers s" using u by (simp add: step_def)
  have 3: "length (sockets (run B evs (step B Unmount s))) = length (sockets s) \<and>
      reconnects (run B evs (step B Unmount s)) \<le> reconnects s \<and>
      \<not> mountedRef (run B evs (step B Unmount s))" if m: "Mount \<notin> set evs"
  proof -
    have "\<not> mountedRef (unmount s)" using u by simp
    from run_unmounted[OF this m, of B] u show ?thesis
      by (simp add: step_def reconnects_def)
  qed
  have 4: "fire Reconnect s = s \<and> timers (step B (WsClose j) s) = timers s \<and>
      length (sockets (step B (WsClose j) s)) = length (sockets s)" if "\<not> mountedRef s"
    using that by (simp add: fire_def connect_def step_def onclose_def Let_def)
  show ?thesis using 1 2 3 4 by blast
qed

theorem teardown_stops_reconnection_witness:
  "sockets (run (\<lambda>log c x. []) [Unmount] (run (\<lambda>log c x. []) [Mount, WsOpen 0] initial_state)) = [CLOSING] \<and>
   length (sockets (run (\<lambda>log c x. []) [WsClose 0, Tick 60000, WsError 0]
      (step (\<lambda>log c x. []) Unmount (run (\<lambda>log c x. []) [Mount, WsOpen 0] initial_state)))) = 1 \<and>
   sockets (run (\<lambda>log c x. []) [Tick 1000]
      (step (\<lambda>log c x. []) Unmount (run (\<lambda>log c x. []) [Mount, WsClose 0] initial_state))) = [CLOSED]"
proof -
  let ?B = "(\<lambda>log c x. []) :: behaviour"
  let ?s = "run ?B [Mount, WsOpen 0] initial_state"
  let ?s' = "run ?B [Mount, WsClose 0] initial_state"
  have s: "wsRef ?s = Some 0" "sockets ?s = [OPEN]"
    by (simp_all add: run_def step_def mount_def connect_def onopen_def initial_state_def)
  have s': "sockets ?s' = [CLOSED]"
    by (simp add: run_def step_def mount_def connect_def onclose_def initial_state_def
        setTimeout_def Let_def)
  have m: "Mount \<notin> set [WsClose 0, Tick 60000, WsError 0]" "Mount \<notin> set [Tick 1000]" by simp_all
  have 1: "sockets (run ?B [Unmount] ?s) = [CLOSING]"
    by (simp add: run_def step_def mount_def connect_def onopen_def initial_state_def
        unmount_def ws_close_def Let_def)
  have 2: "length (sockets (run ?B [WsClose 0, Tick 60000, WsError 0] (step ?B Unmount ?s))) = 1"
    using teardown_stops_reconnection[where B = ?B and s = ?s and i = 0 and j = 0
        and evs = "[WsClose 0, Tick 60000, WsError 0]"] m(1) s by simp
  have "length (sockets (run ?B [Tick 1000] (step ?B Unmount ?s'))) = length (sockets ?s')"
    using teardown_stops_reconnection[where B = ?B and s = ?s' and i = 0 and j = 0
        and evs = "[Tick 1000]"] m(2) by blast
  moreover have "sockets (run ?B [Tick 1000] (step ?B Unmount ?s')) = [CLOSED]"
    by (simp add: run_def step_def mount_def connect_def onclose_def initial_state_def
        setTimeout_def Let_def unmount_def ws_close_def tick_def fire_def reconnect_delay_def
        increment_def exact_limit_def)
  ultimately show ?thesis using 1 2 by blast
qed

text \<open>
  When the hook is mounted again before the timer runs (the effect of a component can be
  run, cleaned up and run again), the timer that the unmount left pending opens one more
  socket beside the one of the second mount.
\<close>

lemma remount_with_pending_timer:
  "sockets (run (\<lambda>log c x. []) [Mount, WsClose 0, Unmount, Mount, Tick 1000] initial_state) =
     [CLOSED, CONNECTING, CONNECTING]"
  by (simp add: run_def step_def mount_def connect_def onclose_def initial_state_def
      setTimeout_def Let_def unmount_def ws_close_def tick_def fire_def reconnect_delay_def
      increment_def exact_limit_def)


end
